theory Spec2Isabelle
  imports Complex_Main
begin

section \<open>Exceptions\<close>

text \<open>
  The exceptions the modelled code can raise.  Every one of them is caught by a
  \<^verbatim>\<open>try/except Exception\<close> of \<^verbatim>\<open>hello.py\<close>; the model carries them as values.
\<close>

datatype error = ValueError | OverflowError | TypeError

section \<open>Floating point\<close>

text \<open>
  A Python \<^verbatim>\<open>float\<close> is an IEEE 754 double.  A double is modelled as the rational
  number it denotes, and an operation on doubles as the exact operation followed
  by rounding to the nearest double, ties going to the even significand.  A
  positive double is \<open>m * 2 ^ (e - 52)\<close> with \<open>2 ^ 52 \<le> m < 2 ^ 53\<close>, where \<open>e\<close> is
  the exponent of the binade: \<open>2 ^ e \<le> x < 2 ^ (e + 1)\<close>.  The range of the
  exponent is not modelled (no infinities, no subnormal numbers): the floats of
  this program are quotients of counts of microseconds and percentages, far
  inside it.
\<close>

fun log2_floor :: "nat \<Rightarrow> nat" where
  "log2_floor n = (if n < 2 then 0 else Suc (log2_floor (n div 2)))"

declare log2_floor.simps [simp del]

text \<open>The exponent of the binade of a positive \<open>x\<close>.\<close>

definition binade :: "rat \<Rightarrow> int" where
  "binade x =
     (if 1 \<le> x then int (log2_floor (nat \<lfloor>x\<rfloor>))
      else - int (Suc (log2_floor (nat \<lceil>1 / x\<rceil> - 1))))"

text \<open>Rounding to the nearest integer, a tie to the even one.\<close>

definition round_half_even :: "rat \<Rightarrow> int" where
  "round_half_even x =
     (let f = \<lfloor>x\<rfloor>; d = x - of_int f
      in if d < 1 / 2 then f else if 1 / 2 < d then f + 1 else if even f then f else f + 1)"

text \<open>The double nearest to a positive \<open>x\<close>.\<close>

definition double_of_pos :: "rat \<Rightarrow> rat" where
  "double_of_pos x =
     (let ulp = 2 powi (binade x - 52) in of_int (round_half_even (x / ulp)) * ulp)"

text \<open>The double nearest to \<open>x\<close>.\<close>

definition double_of :: "rat \<Rightarrow> rat" where
  "double_of x =
     (if x = 0 then 0 else if 0 < x then double_of_pos x else - double_of_pos (- x))"

text \<open>
  \<^verbatim>\<open>x / y\<close>, \<^verbatim>\<open>x - y\<close> and \<^verbatim>\<open>x * y\<close> on floats (the one division of the modelled code
  is guarded by \<^verbatim>\<open>total_sec > 0\<close>).
\<close>

definition float_div :: "rat \<Rightarrow> rat \<Rightarrow> rat" where
  "float_div x y = double_of (x / y)"

definition float_sub :: "rat \<Rightarrow> rat \<Rightarrow> rat" where
  "float_sub x y = double_of (x - y)"

definition float_mul :: "rat \<Rightarrow> rat \<Rightarrow> rat" where
  "float_mul x y = double_of (x * y)"

text \<open>\<^verbatim>\<open>int(x)\<close> on a float: truncation towards zero.\<close>

definition trunc :: "rat \<Rightarrow> int" where
  "trunc x = (if 0 \<le> x then \<lfloor>x\<rfloor> else \<lceil>x\<rceil>)"

section \<open>Dates, times and durations\<close>

text \<open>
  A \<^verbatim>\<open>datetime.datetime\<close> is the number of microseconds since 0001-01-01 00:00:00,
  the smallest value Python has; the largest is 9999-12-31 23:59:59.999999, one
  microsecond below \<open>datetime_limit\<close> (day 3652059 is the first day that does not
  exist).  A \<^verbatim>\<open>datetime.timedelta\<close> is a number of microseconds, a
  \<^verbatim>\<open>datetime.time\<close> the number of microseconds since midnight.
\<close>

type_synonym datetime = int
type_synonym timedelta = int
type_synonym time_of_day = int

definition us_per_second :: int where
  "us_per_second = 1000000"

definition us_per_day :: int where
  "us_per_day = 86400 * us_per_second"

definition datetime_limit :: int where
  "datetime_limit = 3652059 * us_per_day"

text \<open>\<^verbatim>\<open>datetime + timedelta\<close>: OverflowError when the result leaves the range.\<close>

definition datetime_add :: "datetime \<Rightarrow> timedelta \<Rightarrow> error + datetime" where
  "datetime_add t d =
     (if 0 \<le> t + d \<and> t + d < datetime_limit then Inr (t + d) else Inl OverflowError)"

text \<open>
  \<^verbatim>\<open>datetime.timedelta(minutes=m, seconds=s)\<close>: the constructor normalises to days,
  seconds and microseconds and raises OverflowError when the magnitude of the
  days exceeds 999999999.
\<close>

definition timedelta_of :: "int \<Rightarrow> int \<Rightarrow> error + timedelta" where
  "timedelta_of m s =
     (let d = (m * 60 + s) * us_per_second
      in if - 999999999 \<le> d div us_per_day \<and> d div us_per_day \<le> 999999999
         then Inr d else Inl OverflowError)"

text \<open>\<^verbatim>\<open>datetime.datetime.combine(now.date(), t)\<close>.\<close>

definition combine_date :: "datetime \<Rightarrow> time_of_day \<Rightarrow> datetime" where
  "combine_date now t = (now div us_per_day) * us_per_day + t"

text \<open>
  \<^verbatim>\<open>timedelta.total_seconds()\<close>: the microseconds divided by \<open>10 ^ 6\<close>, a true
  division of two integers, which Python rounds correctly to a float.
\<close>

definition total_seconds :: "timedelta \<Rightarrow> rat" where
  "total_seconds d = double_of (of_int d / 1000000)"

section \<open>Strings: \<^verbatim>\<open>int\<close>, \<^verbatim>\<open>str\<close>, \<^verbatim>\<open>strptime\<close>, \<^verbatim>\<open>strftime\<close>\<close>

definition is_digit :: "char \<Rightarrow> bool" where
  "is_digit c = (48 \<le> (of_char c :: nat) \<and> (of_char c :: nat) \<le> 57)"

definition digit_val :: "char \<Rightarrow> nat" where
  "digit_val c = of_char c - 48"

definition digit_char :: "nat \<Rightarrow> char" where
  "digit_char n = char_of (48 + n)"

text \<open>
  The whitespace \<^verbatim>\<open>int\<close> skips before and after the number in an ASCII string:
  tab, line feed, vertical tab, form feed, carriage return and space.
\<close>

definition is_space :: "char \<Rightarrow> bool" where
  "is_space c = ((of_char c :: nat) \<in> {9, 10, 11, 12, 13, 32})"

definition strip :: "string \<Rightarrow> string" where
  "strip s = rev (dropWhile is_space (rev (dropWhile is_space s)))"

text \<open>
  The digits of a decimal literal as \<^verbatim>\<open>int\<close> reads them: a single underscore
  may stand between two digits.  The caller has checked that the first
  character is a digit.
\<close>

fun int_digits :: "nat \<Rightarrow> string \<Rightarrow> nat option" where
  "int_digits acc [] = Some acc"
| "int_digits acc (c # cs) =
     (if is_digit c then int_digits (10 * acc + digit_val c) cs
      else if c = CHR ''_'' \<and> cs \<noteq> [] \<and> is_digit (hd cs) then int_digits acc cs
      else None)"

text \<open>
  CPython converts between integers and decimal strings of at most 4300 digits
  (the default of \<^verbatim>\<open>sys.int_max_str_digits\<close>, since 3.11 and the security releases
  of 3.7 to 3.10); beyond that \<^verbatim>\<open>int\<close> and \<^verbatim>\<open>str\<close> raise ValueError.
\<close>

definition max_str_digits :: nat where
  "max_str_digits = 4300"

text \<open>
  \<^verbatim>\<open>int(s)\<close> for a string: ValueError unless, with the whitespace around it
  skipped, it is an optional sign and a decimal literal of at most 4300 digits.
  Strings are taken within ASCII (in a string with other characters Python also
  reads the digits and the spaces of other scripts).
\<close>

definition py_int :: "string \<Rightarrow> error + int" where
  "py_int s =
     (let t = strip s;
          neg = (t \<noteq> [] \<and> hd t = CHR ''-'');
          body = (if t \<noteq> [] \<and> (hd t = CHR ''-'' \<or> hd t = CHR ''+'') then tl t else t)
      in if body = [] \<or> \<not> is_digit (hd body) then Inl ValueError
         else if max_str_digits < length (filter is_digit body) then Inl ValueError
         else (case int_digits 0 body of
                 None \<Rightarrow> Inl ValueError
               | Some n \<Rightarrow> Inr (if neg then - int n else int n)))"

fun digits_of :: "nat \<Rightarrow> string" where
  "digits_of n =
     (if n < 10 then [digit_char n] else digits_of (n div 10) @ [digit_char (n mod 10)])"

declare digits_of.simps [simp del]

text \<open>The decimal text of an integer.\<close>

definition int_text :: "int \<Rightarrow> string" where
  "int_text n = (if n < 0 then CHR ''-'' # digits_of (nat (- n)) else digits_of (nat n))"

text \<open>\<^verbatim>\<open>str(n)\<close> for an integer.\<close>

definition py_str :: "int \<Rightarrow> error + string" where
  "py_str n =
     (if max_str_digits < length (digits_of (nat \<bar>n\<bar>)) then Inl ValueError
      else Inr (int_text n))"

text \<open>The format \<^verbatim>\<open>%02d\<close> for a number below 100.\<close>

definition two_digits :: "nat \<Rightarrow> string" where
  "two_digits n = [digit_char (n div 10), digit_char (n mod 10)]"

text \<open>
  One numeric field of \<^verbatim>\<open>strptime\<close>.  The directives \<^verbatim>\<open>%H\<close>, \<^verbatim>\<open>%M\<close> and \<^verbatim>\<open>%S\<close>
  are the regular expressions \<^verbatim>\<open>2[0-3]|[0-1]\d|\d\<close>, \<^verbatim>\<open>[0-5]\d|\d\<close> and
  \<^verbatim>\<open>6[0-1]|[0-5]\d|\d\<close>: two digits when they stay within the bound, one digit
  otherwise.
\<close>

fun time_field :: "nat \<Rightarrow> string \<Rightarrow> (nat \<times> string) option" where
  "time_field hi [] = None"
| "time_field hi [a] = (if is_digit a then Some (digit_val a, []) else None)"
| "time_field hi (a # b # rest) =
     (if is_digit a \<and> is_digit b \<and> 10 * digit_val a + digit_val b \<le> hi
      then Some (10 * digit_val a + digit_val b, rest)
      else if is_digit a then Some (digit_val a, b # rest)
      else None)"

text \<open>
  \<^verbatim>\<open>datetime.datetime.strptime(s, "%H:%M:%S").time()\<close>: ValueError when the text
  does not match, when text remains after the seconds, and when the seconds
  are 60 or 61 (which the pattern lets through and the constructor refuses).
  Here too the text is taken within ASCII (\<^verbatim>\<open>\d\<close> also matches the digits of
  other scripts).
\<close>

definition strptime_hms :: "string \<Rightarrow> error + time_of_day" where
  "strptime_hms s =
     (case time_field 23 s of
        Some (h, c1 # r1) \<Rightarrow>
          (if c1 \<noteq> CHR '':'' then Inl ValueError
           else (case time_field 59 r1 of
                   Some (m, c2 # r2) \<Rightarrow>
                     (if c2 \<noteq> CHR '':'' then Inl ValueError
                      else (case time_field 61 r2 of
                              Some (sec, []) \<Rightarrow>
                                (if 59 < sec then Inl ValueError
                                 else Inr ((int h * 3600 + int m * 60 + int sec) * us_per_second))
                            | _ \<Rightarrow> Inl ValueError))
                 | _ \<Rightarrow> Inl ValueError))
      | _ \<Rightarrow> Inl ValueError)"

text \<open>\<^verbatim>\<open>t.strftime("%H:%M:%S")\<close> for a datetime.\<close>

definition strftime_hms :: "datetime \<Rightarrow> string" where
  "strftime_hms t =
     (let sec = nat ((t mod us_per_day) div us_per_second)
      in two_digits (sec div 3600) @ '':'' @ two_digits ((sec div 60) mod 60) @ '':''
         @ two_digits (sec mod 60))"

text \<open>
  \<^verbatim>\<open>str(datetime.timedelta(seconds=n))\<close> for an integer \<open>n\<close>: the days, when there
  are any (at most nine digits), then \<^verbatim>\<open>H:MM:SS\<close>.
\<close>

definition str_timedelta :: "int \<Rightarrow> string" where
  "str_timedelta n =
     (let days = n div 86400; sec = nat (n mod 86400);
          hms = digits_of (sec div 3600) @ '':'' @ two_digits ((sec div 60) mod 60) @ '':''
                @ two_digits (sec mod 60)
      in if days = 0 then hms
         else int_text days @ '' day'' @ (if \<bar>days\<bar> \<noteq> 1 then ''s'' else '''') @ '', '' @ hms)"

section \<open>The recurrence computation of \<^verbatim>\<open>refresh_all_timers\<close>\<close>

text \<open>
  The loop \<^verbatim>\<open>while next_time < now: next_time += period\<close>.  It may run forever
  (a period of zero), so the result is an option: \<open>None\<close> is the loop that never
  returns, \<open>Some (Inl e)\<close> the exception that leaves it.
\<close>

partial_function (option) advance ::
  "timedelta \<Rightarrow> datetime \<Rightarrow> datetime \<Rightarrow> (error + datetime) option" where
  "advance period now next_time =
     (if next_time < now then
        (case datetime_add next_time period of
           Inl e \<Rightarrow> Some (Inl e)
         | Inr t \<Rightarrow> advance period now t)
      else Some (Inr next_time))"

declare advance.simps [code]

text \<open>
  Lines 674 to 676: the last trigger on the date of \<open>now\<close>, moved one day back
  when that lies in the future.
\<close>

definition anchor :: "datetime \<Rightarrow> time_of_day \<Rightarrow> error + datetime" where
  "anchor now last_time =
     (let last_dt = combine_date now last_time
      in if last_dt > now then datetime_add last_dt (- us_per_day) else Inr last_dt)"

text \<open>
  Lines 674 to 681: the next occurrence for a last trigger, a period (already a
  \<^verbatim>\<open>timedelta\<close>) and the current time.
\<close>

definition next_occurrence ::
  "time_of_day \<Rightarrow> timedelta \<Rightarrow> datetime \<Rightarrow> (error + datetime) option" where
  "next_occurrence last_time period now =
     (case anchor now last_time of
        Inl e \<Rightarrow> Some (Inl e)
      | Inr last_dt \<Rightarrow>
          (case datetime_add last_dt period of
             Inl e \<Rightarrow> Some (Inl e)
           | Inr next_time \<Rightarrow> advance period now next_time))"

section \<open>The table and the state of the application\<close>

text \<open>
  One row of the \<^verbatim>\<open>QTableWidget\<close>, with the cells the modelled code reads and
  writes: column 1 (name), the line edits of columns 2 and 3 (period minutes
  and seconds, as the text they hold), column 4 (last trigger), columns 5 and 6
  (next occurrence and remaining time, as displayed), the check box of column
  7 and the progress bar of column 8 (the number last given to \<^verbatim>\<open>setValue\<close>
  and \<^verbatim>\<open>setFormat\<close>, if any).  Column 0, the row number, is left out: nothing
  reads it.  Every row is made by \<^verbatim>\<open>add_boss_row\<close>, which
  fills all of these cells, so \<^verbatim>\<open>is_row_valid\<close> holds of every row.
\<close>

record row =
  name :: string
  minutes :: string
  seconds :: string
  last_time :: string
  next_cell :: string
  remaining_cell :: string
  enabled :: bool
  progress :: "int option"

text \<open>
  What the application does to the outside, in the order it happens:
  \<open>PreWarning i\<close> is the marquee banner and the warning sound for row \<open>i\<close>
  (\<^verbatim>\<open>show_alert\<close> and \<^verbatim>\<open>play_warning_sound\<close>), \<open>Due i t\<close> the alarm sound and
  the message box of \<^verbatim>\<open>trigger_alarm\<close> for row \<open>i\<close> with next occurrence \<open>t\<close>,
  \<open>RowFailed i e\<close> the \<^verbatim>\<open>logging.error\<close> of \<^verbatim>\<open>refresh_all_timers\<close> for an exception
  in row \<open>i\<close>, and \<open>ConfigFailed e\<close> the \<^verbatim>\<open>logging.error\<close> of \<^verbatim>\<open>load_config\<close> and
  \<^verbatim>\<open>save_config\<close>.
\<close>

datatype event = PreWarning nat | Due nat datetime | RowFailed nat error | ConfigFailed error

text \<open>
  The fields of \<^verbatim>\<open>BossTimer\<close>: the table, \<^verbatim>\<open>self.ringing\<close>, the radio button
  \<^verbatim>\<open>auto_time\<close>, and the effects so far.  \<open>reads\<close> counts the calls of
  \<^verbatim>\<open>datetime.datetime.now()\<close>: the \<open>k\<close>-th call returns \<open>clk k\<close> for the clock
  \<open>clk\<close> the functions below take.
\<close>

record timer_state =
  table :: "row list"
  ringing :: bool
  auto_time :: bool
  reads :: nat
  events :: "event list"

type_synonym clock = "nat \<Rightarrow> datetime"

text \<open>The state \<^verbatim>\<open>__init__\<close> sets up before it loads the configuration.\<close>

definition initial_state :: timer_state where
  "initial_state =
     \<lparr>table = [], ringing = False, auto_time = True, reads = 0, events = []\<rparr>"

text \<open>
  The default name of a row: the character U+65B0 followed by \<^verbatim>\<open>BOSS\<close>, as
  its UTF-8 bytes.
\<close>

definition default_name :: string where
  "default_name = [CHR 0xE6, CHR 0x96, CHR 0xB0] @ ''BOSS''"

definition add_boss_row :: "clock \<Rightarrow> timer_state \<Rightarrow> timer_state" where
  "add_boss_row clk st =
     st\<lparr>reads := Suc (reads st),
        table := table st @
          [\<lparr>name = default_name, minutes = ''60'', seconds = ''0'',
            last_time = strftime_hms (clk (reads st)), next_cell = [],
            remaining_cell = [], enabled = True, progress = None\<rparr>]\<rparr>"

text \<open>\<^verbatim>\<open>stop_alarm_sound\<close>: whatever the media player does, \<^verbatim>\<open>finally\<close> clears the flag.\<close>

definition stop_alarm_sound :: "timer_state \<Rightarrow> timer_state" where
  "stop_alarm_sound st = st\<lparr>ringing := False\<rparr>"

section \<open>One refresh of the table\<close>

text \<open>
  A method of \<^verbatim>\<open>BossTimer\<close> that is called in a state either returns, leaving a
  state (\<open>Returned\<close>), or it never returns because it has entered a loop that runs
  for ever (\<open>Hung\<close>, with the state at that moment: what was done before has been
  done).
\<close>

datatype outcome = Returned timer_state | Hung timer_state

fun state_of :: "outcome \<Rightarrow> timer_state" where
  "state_of (Returned s) = s"
| "state_of (Hung s) = s"

fun returned :: "outcome \<Rightarrow> timer_state option" where
  "returned (Returned s) = Some s"
| "returned (Hung s) = None"

text \<open>
  \<^verbatim>\<open>refresh_all_timers\<close> calls \<^verbatim>\<open>check_alert_conditions\<close>, which calls
  \<^verbatim>\<open>trigger_alarm\<close>, which in automatic mode calls \<^verbatim>\<open>update_boss_time\<close>, which
  calls \<^verbatim>\<open>refresh_all_timers\<close> again.  The methods on the way take that last
  call as the parameter \<open>refresh\<close>; \<open>refresh_all_timers\<close> below passes itself.
\<close>

definition update_boss_time ::
  "(timer_state \<Rightarrow> outcome) \<Rightarrow> clock \<Rightarrow> nat \<Rightarrow> timer_state \<Rightarrow> outcome" where
  "update_boss_time refresh clk i st =
     (let new_time = strftime_hms (clk (reads st))
      in refresh (st\<lparr>reads := Suc (reads st),
                      table := (table st)[i := (table st ! i)\<lparr>last_time := new_time\<rparr>]\<rparr>))"

definition trigger_alarm ::
  "(timer_state \<Rightarrow> outcome) \<Rightarrow> clock \<Rightarrow> nat \<Rightarrow> datetime \<Rightarrow> timer_state \<Rightarrow> outcome" where
  "trigger_alarm refresh clk i next_time st =
     (let st1 = st\<lparr>ringing := True, events := events st @ [Due i next_time]\<rparr>
      in if auto_time st1 then update_boss_time refresh clk i st1 else Returned st1)"

definition check_alert_conditions ::
  "(timer_state \<Rightarrow> outcome) \<Rightarrow> clock \<Rightarrow> nat \<Rightarrow> datetime \<Rightarrow> datetime
     \<Rightarrow> timer_state \<Rightarrow> outcome" where
  "check_alert_conditions refresh clk i next_time now st =
     (if \<not> enabled (table st ! i) then Returned st
      else
        let remaining = total_seconds (next_time - now);
            st1 = (if 178 \<le> remaining \<and> remaining \<le> 180
                   then st\<lparr>events := events st @ [PreWarning i]\<rparr> else st)
        in if remaining \<le> 0 \<and> \<not> ringing st1
           then trigger_alarm refresh clk i next_time st1
           else Returned st1)"

definition update_row_display ::
  "nat \<Rightarrow> datetime \<Rightarrow> timedelta \<Rightarrow> datetime \<Rightarrow> timer_state \<Rightarrow> timer_state" where
  "update_row_display i next_time period now st =
     (let remaining = total_seconds (next_time - now);
          r = (table st ! i)\<lparr>next_cell := strftime_hms next_time,
                               remaining_cell := str_timedelta (trunc remaining)\<rparr>;
          total_sec = total_seconds period;
          r' = (if total_sec > 0
                then r\<lparr>progress :=
                       Some (trunc (float_mul (float_sub 1 (float_div remaining total_sec)) 100))\<rparr>
                else r)
      in st\<lparr>table := (table st)[i := r']\<rparr>)"

text \<open>Lines 668 to 672: the three cells a refresh parses.\<close>

definition parse_row :: "row \<Rightarrow> error + (int \<times> int \<times> time_of_day)" where
  "parse_row r =
     (case py_int (minutes r) of
        Inl e \<Rightarrow> Inl e
      | Inr period_min \<Rightarrow>
          (case py_int (seconds r) of
             Inl e \<Rightarrow> Inl e
           | Inr period_sec \<Rightarrow>
               (case strptime_hms (last_time r) of
                  Inl e \<Rightarrow> Inl e
                | Inr t \<Rightarrow> Inr (period_min, period_sec, t))))"

text \<open>The \<^verbatim>\<open>except\<close> of the loop body: the error is logged, the row left as it was.\<close>

definition row_failed :: "nat \<Rightarrow> error \<Rightarrow> timer_state \<Rightarrow> timer_state" where
  "row_failed i e st = st\<lparr>events := events st @ [RowFailed i e]\<rparr>"

text \<open>
  The body of the loop of \<^verbatim>\<open>refresh_all_timers\<close> for row \<open>i\<close>.  When the \<^verbatim>\<open>while\<close>
  loop never returns, the state is the one the row was entered with: nothing is
  written before the loop.  (The source builds the period after the anchor;
  both raise the same exception into the same handler.)
\<close>

definition refresh_row ::
  "(timer_state \<Rightarrow> outcome) \<Rightarrow> clock \<Rightarrow> datetime \<Rightarrow> nat \<Rightarrow> timer_state \<Rightarrow> outcome" where
  "refresh_row refresh clk now i st =
     (case parse_row (table st ! i) of
        Inl e \<Rightarrow> Returned (row_failed i e st)
      | Inr (period_min, period_sec, t) \<Rightarrow>
          (case timedelta_of period_min period_sec of
             Inl e \<Rightarrow> Returned (row_failed i e st)
           | Inr period \<Rightarrow>
               (case next_occurrence t period now of
                  None \<Rightarrow> Hung st
                | Some (Inl e) \<Rightarrow> Returned (row_failed i e st)
                | Some (Inr next_time) \<Rightarrow>
                    check_alert_conditions refresh clk i next_time now
                      (update_row_display i next_time period now st))))"

text \<open>\<^verbatim>\<open>for row in range(self.table.rowCount())\<close>, over the row numbers left.\<close>

fun refresh_rows ::
  "(timer_state \<Rightarrow> outcome) \<Rightarrow> clock \<Rightarrow> datetime \<Rightarrow> nat list \<Rightarrow> timer_state \<Rightarrow> outcome" where
  "refresh_rows refresh clk now [] st = Returned st"
| "refresh_rows refresh clk now (i # rest) st =
     (case refresh_row refresh clk now i st of
        Hung s \<Rightarrow> Hung s
      | Returned st' \<Rightarrow> refresh_rows refresh clk now rest st')"

definition refresh_body ::
  "(timer_state \<Rightarrow> outcome) \<Rightarrow> clock \<Rightarrow> timer_state \<Rightarrow> outcome" where
  "refresh_body refresh clk st =
     refresh_rows refresh clk (clk (reads st)) [0..<length (table st)]
       (st\<lparr>reads := Suc (reads st)\<rparr>)"

subsection \<open>The nested refresh runs while the alarm rings\<close>

text \<open>
  \<^verbatim>\<open>trigger_alarm\<close> sets \<^verbatim>\<open>self.ringing\<close> before anything else, and nothing in a
  refresh clears it: the nested refresh starts in a ringing state, and a refresh
  that starts in a ringing state calls nothing back.  This is what ends the
  recursion.
\<close>

lemma check_alert_conditions_ringing:
  assumes "ringing st"
  shows "check_alert_conditions R clk i nt now st = check_alert_conditions R' clk i nt now st"
    and "ringing (state_of (check_alert_conditions R clk i nt now st))"
  using assms by (auto simp: check_alert_conditions_def Let_def)

lemma trigger_alarm_agree:
  assumes "\<And>s. ringing s \<Longrightarrow> R s = R' s"
  shows "trigger_alarm R clk i nt st = trigger_alarm R' clk i nt st"
proof -
  have "R s = R' s" if "ringing s" for s using assms that by blast
  then show ?thesis
    by (simp add: trigger_alarm_def update_boss_time_def Let_def)
qed

lemma check_alert_conditions_agree:
  assumes "\<And>s. ringing s \<Longrightarrow> R s = R' s"
  shows "check_alert_conditions R clk i nt now st = check_alert_conditions R' clk i nt now st"
  by (auto simp: check_alert_conditions_def Let_def trigger_alarm_agree[OF assms])

lemma refresh_row_ringing:
  assumes "ringing st"
  shows "refresh_row R clk now i st = refresh_row R' clk now i st"
    and "ringing (state_of (refresh_row R clk now i st))"
proof -
  have u: "ringing (update_row_display i nt p now st)" for nt p
    using assms by (simp add: update_row_display_def Let_def)
  show "refresh_row R clk now i st = refresh_row R' clk now i st"
    using check_alert_conditions_ringing(1)[OF u]
    by (simp add: refresh_row_def split: sum.splits option.splits prod.splits)
  show "ringing (state_of (refresh_row R clk now i st))"
    using check_alert_conditions_ringing(2)[OF u] assms
    by (auto simp: refresh_row_def row_failed_def split: sum.splits option.splits prod.splits)
qed

lemma refresh_row_agree:
  assumes "\<And>s. ringing s \<Longrightarrow> R s = R' s"
  shows "refresh_row R clk now i st = refresh_row R' clk now i st"
  using check_alert_conditions_agree[OF assms]
  by (simp add: refresh_row_def split: sum.splits option.splits prod.splits)

lemma refresh_rows_ringing:
  "ringing st \<Longrightarrow> refresh_rows R clk now is st = refresh_rows R' clk now is st"
proof (induction "is" arbitrary: st)
  case Nil
  then show ?case by simp
next
  case (Cons i rest)
  have eq: "refresh_row R clk now i st = refresh_row R' clk now i st"
    using Cons.prems by (rule refresh_row_ringing(1))
  have keep: "ringing (state_of (refresh_row R' clk now i st))"
    using Cons.prems by (rule refresh_row_ringing(2))
  show ?case
  proof (cases "refresh_row R' clk now i st")
    case (Returned s1)
    then have "ringing s1"
      using keep by simp
    then show ?thesis
      using eq Returned Cons.IH by simp
  next
    case (Hung s1)
    then show ?thesis
      using eq by simp
  qed
qed

lemma refresh_rows_agree:
  assumes "\<And>s. ringing s \<Longrightarrow> R s = R' s"
  shows "refresh_rows R clk now is st = refresh_rows R' clk now is st"
  by (induction "is" arbitrary: st)
     (simp_all add: refresh_row_agree[OF assms] split: outcome.splits)

lemma refresh_body_cong [fundef_cong]:
  assumes "clk = clk'" "st = st'"
    and "\<And>s. \<not> ringing st' \<Longrightarrow> ringing s \<Longrightarrow> R s = R' s"
  shows "refresh_body R clk st = refresh_body R' clk' st'"
proof (cases "ringing st'")
  case True
  then show ?thesis
    using assms(1,2) by (simp add: refresh_body_def refresh_rows_ringing)
next
  case False
  then have h: "\<And>s. ringing s \<Longrightarrow> R s = R' s" using assms(3) by blast
  show ?thesis
    using assms(1,2) refresh_rows_agree[OF h] by (simp add: refresh_body_def)
qed

text \<open>\<^verbatim>\<open>refresh_all_timers\<close>: one tick of the one-second timer.\<close>

function refresh_all_timers :: "clock \<Rightarrow> timer_state \<Rightarrow> outcome" where
  "refresh_all_timers clk st = refresh_body (refresh_all_timers clk) clk st"
  by pat_completeness auto
termination
  by (relation "measure (\<lambda>(clk, st). if ringing st then 0 else 1)") auto

declare refresh_all_timers.simps [simp del]

section \<open>A session: ticks and what the user does between them\<close>

text \<open>
  \<open>Tick\<close> is one timeout of \<^verbatim>\<open>refresh_timer\<close> (or a press of the refresh button),
  \<open>StopAlarm\<close> the stop button or the closing of the alarm's message box (both
  run \<^verbatim>\<open>stop_alarm_sound\<close>), \<open>Edit f\<close> any change the user makes to the table
  (adding or deleting a row, editing a cell, ticking a check box), \<open>SetAutoTime\<close>
  the choice between the two radio buttons.  Once a refresh hangs nothing more
  happens.
\<close>

datatype action = Tick | StopAlarm | Edit "row list \<Rightarrow> row list" | SetAutoTime bool

fun run :: "clock \<Rightarrow> action list \<Rightarrow> timer_state \<Rightarrow> outcome" where
  "run clk [] st = Returned st"
| "run clk (Tick # rest) st =
     (case refresh_all_timers clk st of
        Hung s \<Rightarrow> Hung s
      | Returned st' \<Rightarrow> run clk rest st')"
| "run clk (StopAlarm # rest) st = run clk rest (stop_alarm_sound st)"
| "run clk (Edit f # rest) st = run clk rest (st\<lparr>table := f (table st)\<rparr>)"
| "run clk (SetAutoTime b # rest) st = run clk rest (st\<lparr>auto_time := b\<rparr>)"

fun is_due :: "event \<Rightarrow> bool" where
  "is_due (Due i t) = True"
| "is_due e = False"

text \<open>
  How a state \<open>s'\<close> can follow a state \<open>s\<close> while nobody stops the alarm: the
  effects of \<open>s\<close> are extended, and an alarm among the new effects uses up the
  one chance that a silent \<open>s\<close> has and that a ringing \<open>s\<close> has not.
\<close>

definition follows :: "timer_state \<Rightarrow> timer_state \<Rightarrow> bool" where
  "follows s s' \<longleftrightarrow>
     (\<exists>new. events s' = events s @ new
        \<and> length (filter is_due new) + (if ringing s' then 0 else 1)
            \<le> (if ringing s then 0 else 1))"

section \<open>The configuration file\<close>

text \<open>
  What \<^verbatim>\<open>json.dump\<close> is given and \<^verbatim>\<open>json.load\<close> returns: a list of dictionaries
  from strings to strings, integers, booleans or null.  A dictionary is the list
  of its members in order; where a key occurs twice the later member counts, as
  in the dictionary \<^verbatim>\<open>json.load\<close> builds.
\<close>

datatype json = JString string | JInt int | JBool bool | JNull

type_synonym json_object = "(string \<times> json) list"

text \<open>\<^verbatim>\<open>item.get(key, default)\<close>.\<close>

definition dict_get :: "json_object \<Rightarrow> string \<Rightarrow> json \<Rightarrow> json" where
  "dict_get item k d = (case map_of (rev item) k of None \<Rightarrow> d | Some v \<Rightarrow> v)"

text \<open>\<^verbatim>\<open>str(v)\<close> for a value of the configuration.\<close>

fun str_json :: "json \<Rightarrow> error + string" where
  "str_json (JString s) = Inr s"
| "str_json (JInt n) = py_str n"
| "str_json (JBool b) = Inr (if b then ''True'' else ''False'')"
| "str_json JNull = Inr ''None''"

text \<open>
  \<^verbatim>\<open>setText(v)\<close> takes a string and \<^verbatim>\<open>setChecked(v)\<close> a boolean (or an integer,
  which the binding converts); anything else is a TypeError.
\<close>

fun as_text :: "json \<Rightarrow> error + string" where
  "as_text (JString s) = Inr s"
| "as_text v = Inl TypeError"

fun as_checked :: "json \<Rightarrow> error + bool" where
  "as_checked (JBool b) = Inr b"
| "as_checked (JInt n) = Inr (n \<noteq> 0)"
| "as_checked v = Inl TypeError"

subsection \<open>The JSON text\<close>

text \<open>
  The file is the text that Python writes to it and reads from it, a string of
  bytes in UTF-8 like every string of the model.
\<close>

text \<open>The white space of JSON: tab, line feed, carriage return and space.\<close>

definition is_json_space :: "char \<Rightarrow> bool" where
  "is_json_space c = ((of_char c :: nat) \<in> {9, 10, 13, 32})"

definition skip_space :: "string \<Rightarrow> string" where
  "skip_space s = dropWhile is_json_space s"

text \<open>A hexadecimal digit as \<^verbatim>\<open>json.dump\<close> writes it (lower case) and its value as
  \<^verbatim>\<open>json.load\<close> reads it (either case).\<close>

definition hex_digit :: "nat \<Rightarrow> char" where
  "hex_digit n = (if n < 10 then char_of (48 + n) else char_of (87 + n))"

definition hex_val :: "char \<Rightarrow> nat option" where
  "hex_val c =
     (let n = (of_char c :: nat)
      in if 48 \<le> n \<and> n \<le> 57 then Some (n - 48)
         else if 97 \<le> n \<and> n \<le> 102 then Some (n - 87)
         else if 65 \<le> n \<and> n \<le> 70 then Some (n - 55)
         else None)"

text \<open>
  One character of a string as \<^verbatim>\<open>json.dump\<close> writes it with
  \<^verbatim>\<open>ensure_ascii=False\<close>: the quote, the backslash and the control characters below
  0x20 are escaped, everything else is written as it is.
\<close>

definition escape_char :: "char \<Rightarrow> string" where
  "escape_char c =
     (if c = CHR 0x22 then [CHR 0x5C, CHR 0x22]
      else if c = CHR 0x5C then [CHR 0x5C, CHR 0x5C]
      else if c = CHR 0x0A then [CHR 0x5C, CHR ''n'']
      else if c = CHR 0x0D then [CHR 0x5C, CHR ''r'']
      else if c = CHR 0x09 then [CHR 0x5C, CHR ''t'']
      else if c = CHR 0x08 then [CHR 0x5C, CHR ''b'']
      else if c = CHR 0x0C then [CHR 0x5C, CHR ''f'']
      else if (of_char c :: nat) < 32
        then [CHR 0x5C, CHR ''u'', CHR ''0'', CHR ''0'',
              hex_digit ((of_char c :: nat) div 16), hex_digit ((of_char c :: nat) mod 16)]
      else [c])"

definition json_string :: "string \<Rightarrow> string" where
  "json_string s = CHR 0x22 # concat (map escape_char s) @ [CHR 0x22]"

text \<open>The character for the letter after a backslash, where there is one.\<close>

definition simple_escape :: "char \<Rightarrow> char option" where
  "simple_escape e =
     (if e = CHR 0x22 then Some (CHR 0x22)
      else if e = CHR 0x5C then Some (CHR 0x5C)
      else if e = CHR ''/'' then Some (CHR ''/'')
      else if e = CHR ''b'' then Some (CHR 0x08)
      else if e = CHR ''f'' then Some (CHR 0x0C)
      else if e = CHR ''n'' then Some (CHR 0x0A)
      else if e = CHR ''r'' then Some (CHR 0x0D)
      else if e = CHR ''t'' then Some (CHR 0x09)
      else None)"

text \<open>The four hexadecimal digits of a \<^verbatim>\<open>\u\<close> escape.\<close>

definition hex4 :: "string \<Rightarrow> (nat \<times> string) option" where
  "hex4 s =
     (case s of
        h1 # h2 # h3 # h4 # r \<Rightarrow>
          (case (hex_val h1, hex_val h2, hex_val h3, hex_val h4) of
             (Some a, Some b, Some c, Some d) \<Rightarrow> Some (((a * 16 + b) * 16 + c) * 16 + d, r)
           | _ \<Rightarrow> None)
      | _ \<Rightarrow> None)"

text \<open>The UTF-8 bytes of a code point.\<close>

definition utf8 :: "nat \<Rightarrow> string" where
  "utf8 n =
     (if n < 0x80 then [char_of n]
      else if n < 0x800 then [char_of (0xC0 + n div 64), char_of (0x80 + n mod 64)]
      else if n < 0x10000
        then [char_of (0xE0 + n div 4096), char_of (0x80 + n div 64 mod 64),
              char_of (0x80 + n mod 64)]
      else [char_of (0xF0 + n div 262144), char_of (0x80 + n div 4096 mod 64),
            char_of (0x80 + n div 64 mod 64), char_of (0x80 + n mod 64)])"

text \<open>
  What follows \<^verbatim>\<open>\u\<close>: a code point, or the two halves of a surrogate pair.  A
  surrogate on its own has no UTF-8 bytes and is not modelled.
\<close>

definition unicode_escape :: "string \<Rightarrow> (string \<times> string) option" where
  "unicode_escape s =
     (case hex4 s of
        None \<Rightarrow> None
      | Some (n, r) \<Rightarrow>
          if n < 0xD800 \<or> 0xE000 \<le> n then Some (utf8 n, r)
          else if 0xDC00 \<le> n then None
          else (case r of
                  b # u # r1 \<Rightarrow>
                    if b = CHR 0x5C \<and> u = CHR ''u'' then
                      (case hex4 r1 of
                         None \<Rightarrow> None
                       | Some (m, r2) \<Rightarrow>
                           if 0xDC00 \<le> m \<and> m < 0xE000
                           then Some (utf8 (0x10000 + (n - 0xD800) * 1024 + (m - 0xDC00)), r2)
                           else None)
                    else None
                | _ \<Rightarrow> None))"

lemma hex4_length: "hex4 s = Some (n, r) \<Longrightarrow> length r < length s"
  by (auto simp: hex4_def split: list.splits option.splits)

lemma unicode_escape_length: "unicode_escape s = Some (v, r) \<Longrightarrow> length r < length s"
  by (fastforce simp: unicode_escape_def split: option.splits if_splits list.splits
      dest: hex4_length)

text \<open>
  The body of a JSON string, from after the opening quote: the characters up to
  the closing quote, and the text that follows it.  A raw control character
  ends the parse (\<^verbatim>\<open>strict\<close> is on by default).
\<close>

function unescape :: "string \<Rightarrow> (string \<times> string) option" where
  "unescape [] = None"
| "unescape (c # cs) =
     (if c = CHR 0x22 then Some ([], cs)
      else if c = CHR 0x5C then
        (case cs of
           [] \<Rightarrow> None
         | e # r \<Rightarrow>
             if e = CHR ''u'' then
               (case unicode_escape r of
                  None \<Rightarrow> None
                | Some (v, r') \<Rightarrow> map_option (\<lambda>(s, t). (v @ s, t)) (unescape r'))
             else
               (case simple_escape e of
                  None \<Rightarrow> None
                | Some x \<Rightarrow> map_option (\<lambda>(s, t). (x # s, t)) (unescape r)))
      else if (of_char c :: nat) < 32 then None
      else map_option (\<lambda>(s, t). (c # s, t)) (unescape cs))"
  by pat_completeness auto
termination
  by (relation "measure length") (auto dest: unicode_escape_length)

lemma unescape_length: "unescape s = Some (v, r) \<Longrightarrow> length r < length s"
proof (induction s arbitrary: v r rule: unescape.induct)
  case 1
  then show ?case by simp
next
  case (2 c cs)
  show ?case
    using "2.prems" "2.IH"
    by (auto split: if_splits list.splits option.splits dest!: unicode_escape_length)
       fastforce+
qed

text \<open>
  Whether a fraction or an exponent follows the integer part of a number, which
  makes it a float for \<^verbatim>\<open>json.load\<close>.
\<close>

definition is_fraction :: "string \<Rightarrow> bool" where
  "is_fraction s =
     (case s of
        c # d # r \<Rightarrow>
          (c = CHR ''.'' \<and> is_digit d)
          \<or> ((c = CHR ''e'' \<or> c = CHR ''E'')
               \<and> (is_digit d \<or> ((d = CHR ''+'' \<or> d = CHR ''-'') \<and> r \<noteq> [] \<and> is_digit (hd r))))
      | _ \<Rightarrow> False)"

text \<open>
  A JSON number that is an integer: an optional minus sign and either a single
  0 or digits that do not start with 0.  Floats are not modelled.
\<close>

definition parse_int :: "string \<Rightarrow> (int \<times> string) option" where
  "parse_int s =
     (let neg = (s \<noteq> [] \<and> hd s = CHR ''-'');
          body = (if neg then tl s else s);
          ds = (if body \<noteq> [] \<and> hd body = CHR ''0'' then ''0'' else takeWhile is_digit body);
          rest = drop (length ds) body
      in if ds = [] \<or> is_fraction rest \<or> max_str_digits < length ds then None
         else (case int_digits 0 ds of
                 None \<Rightarrow> None
               | Some n \<Rightarrow> Some (if neg then - int n else int n, rest)))"

text \<open>A value of an object: a string, null, true, false or an integer.\<close>

definition parse_scalar :: "string \<Rightarrow> (json \<times> string) option" where
  "parse_scalar s =
     (case s of
        [] \<Rightarrow> None
      | c # cs \<Rightarrow>
          if c = CHR 0x22 then map_option (\<lambda>(v, r). (JString v, r)) (unescape cs)
          else if take 4 s = ''null'' then Some (JNull, drop 4 s)
          else if take 4 s = ''true'' then Some (JBool True, drop 4 s)
          else if take 5 s = ''false'' then Some (JBool False, drop 5 s)
          else map_option (\<lambda>(n, r). (JInt n, r)) (parse_int s))"

lemma skip_space_length: "length (skip_space s) \<le> length s"
  by (simp add: skip_space_def length_dropWhile_le)

lemma parse_int_length: "parse_int s = Some (n, r) \<Longrightarrow> length r < length s"
  by (cases s) (auto simp: parse_int_def Let_def split: if_splits option.splits)

lemma parse_scalar_length: "parse_scalar s = Some (v, r) \<Longrightarrow> length r < length s"
  by (cases s)
     (auto simp: parse_scalar_def split: if_splits dest: unescape_length parse_int_length)

text \<open>
  The members of an object from the quote of the first key: key, colon, value,
  and then a comma and the next member or the closing brace.
\<close>

function parse_members :: "string \<Rightarrow> (json_object \<times> string) option" where
  "parse_members s =
     (case s of
        [] \<Rightarrow> None
      | c # s1 \<Rightarrow>
          if c \<noteq> CHR 0x22 then None
          else (case unescape s1 of
                  None \<Rightarrow> None
                | Some (k, s2) \<Rightarrow>
                    (case skip_space s2 of
                       [] \<Rightarrow> None
                     | c2 # s3 \<Rightarrow>
                         if c2 \<noteq> CHR '':'' then None
                         else (case parse_scalar (skip_space s3) of
                                 None \<Rightarrow> None
                               | Some (v, s4) \<Rightarrow>
                                   (case skip_space s4 of
                                      [] \<Rightarrow> None
                                    | c4 # s5 \<Rightarrow>
                                        if c4 = CHR ''}'' then Some ([(k, v)], s5)
                                        else if c4 = CHR '','' then
                                          map_option (\<lambda>(ms, r). ((k, v) # ms, r))
                                            (parse_members (skip_space s5))
                                        else None)))))"
  by pat_completeness auto
termination
proof (relation "measure length")
  show "wf (measure length)"
    by simp
next
  fix s :: string and c s1 x2 k s2 c2 s3 x2a v s4 c4 s5
  assume a: "s = c # s1" "unescape s1 = Some x2" "(k, s2) = x2" "skip_space s2 = c2 # s3"
    "parse_scalar (skip_space s3) = Some x2a" "(v, s4) = x2a" "skip_space s4 = c4 # s5"
  have 1: "length s2 < length s1"
    using a(2,3) unescape_length[of s1 k s2] by simp
  have 2: "length s3 < length s2"
    using a(4) skip_space_length[of s2] by simp
  have 3: "length s4 < length (skip_space s3)"
    using a(5,6) parse_scalar_length[of "skip_space s3" v s4] by simp
  have 4: "length s5 < length s4"
    using a(7) skip_space_length[of s4] by simp
  show "(skip_space s5, s) \<in> measure length"
    using 1 2 3 4 skip_space_length[of s3] skip_space_length[of s5] a(1) by simp
qed

declare parse_members.simps [simp del]

lemma parse_members_length: "parse_members s = Some (ms, r) \<Longrightarrow> length r < length s"
proof (induction s arbitrary: ms r rule: parse_members.induct)
  case (1 s)
  from "1.prems" obtain c s1 where s: "s = c # s1" and c: "c = CHR 0x22"
    by (subst (asm) parse_members.simps) (auto split: list.splits if_splits)
  from "1.prems" s c obtain k s2 where u: "unescape s1 = Some (k, s2)"
    by (subst (asm) parse_members.simps) (auto split: option.splits)
  from "1.prems" s c u obtain s3 where k2: "skip_space s2 = CHR '':'' # s3"
    by (subst (asm) parse_members.simps) (auto split: list.splits if_splits)
  from "1.prems" s c u k2 obtain v s4 where p: "parse_scalar (skip_space s3) = Some (v, s4)"
    by (subst (asm) parse_members.simps) (auto split: option.splits)
  from "1.prems" s c u k2 p obtain c4 s5 where k4: "skip_space s4 = c4 # s5"
    by (subst (asm) parse_members.simps) (auto split: list.splits)
  have l: "length s4 < length s"
    using unescape_length[OF u] skip_space_length[of s2] k2 parse_scalar_length[OF p]
      skip_space_length[of s3] s
    by simp
  have l5: "length s5 < length s4"
    using k4 skip_space_length[of s4] by simp
  show ?case
  proof (cases "c4 = CHR ''}''")
    case True
    then have "r = s5"
      using "1.prems" s c u k2 p k4 by (subst (asm) parse_members.simps) simp
    then show ?thesis
      using l l5 by simp
  next
    case False
    then have c4: "c4 = CHR '',''"
      using "1.prems" s c u k2 p k4
      by (subst (asm) parse_members.simps) (auto split: if_splits)
    then obtain ms' where pm: "parse_members (skip_space s5) = Some (ms', r)"
      using "1.prems" s c u k2 p k4 False by (subst (asm) parse_members.simps) auto
    have nc: "\<not> c \<noteq> CHR 0x22" "\<not> CHR '':'' \<noteq> CHR '':''"
      using c by simp_all
    have "length r < length (skip_space s5)"
      by (rule "1.IH"[OF s nc(1) u refl k2 nc(2) p refl k4 False c4 pm])
    then show ?thesis
      using l l5 skip_space_length[of s5] by simp
  qed
qed

text \<open>An object, from its opening brace.\<close>

definition parse_object :: "string \<Rightarrow> (json_object \<times> string) option" where
  "parse_object s =
     (case s of
        [] \<Rightarrow> None
      | c # s1 \<Rightarrow>
          if c \<noteq> CHR ''{'' then None
          else (case skip_space s1 of
                  [] \<Rightarrow> None
                | c1 # s2 \<Rightarrow> if c1 = CHR ''}'' then Some ([], s2) else parse_members (c1 # s2)))"

lemma parse_object_length: "parse_object s = Some (ms, r) \<Longrightarrow> length r < length s"
proof -
  assume a: "parse_object s = Some (ms, r)"
  then obtain s1 where s: "s = CHR ''{'' # s1"
    by (auto simp: parse_object_def split: list.splits if_splits)
  from a s obtain c1 s2 where k: "skip_space s1 = c1 # s2"
    by (auto simp: parse_object_def split: list.splits)
  have "length r \<le> length s2 \<or> length r < length (c1 # s2)"
    using a s k parse_members_length[of "c1 # s2" ms r]
    by (auto simp: parse_object_def split: if_splits)
  then show ?thesis
    using k skip_space_length[of s1] s by auto
qed

text \<open>The elements of the array, from the first one, up to the closing bracket.\<close>

function parse_objects :: "string \<Rightarrow> (json_object list \<times> string) option" where
  "parse_objects s =
     (case parse_object s of
        None \<Rightarrow> None
      | Some (item, s1) \<Rightarrow>
          (case skip_space s1 of
             [] \<Rightarrow> None
           | c # s2 \<Rightarrow>
               if c = CHR '']'' then Some ([item], s2)
               else if c = CHR '','' then
                 map_option (\<lambda>(items, r). (item # items, r)) (parse_objects (skip_space s2))
               else None))"
  by pat_completeness auto
termination
proof (relation "measure length")
  show "wf (measure length)"
    by simp
next
  fix s :: string and x2 item s1 c s2
  assume a: "parse_object s = Some x2" "(item, s1) = x2" "skip_space s1 = c # s2"
  have "length s1 < length s"
    using a(1,2) parse_object_length[of s item s1] by simp
  moreover have "length s2 < length s1"
    using a(3) skip_space_length[of s1] by simp
  ultimately show "(skip_space s2, s) \<in> measure length"
    using skip_space_length[of s2] by simp
qed

declare parse_objects.simps [simp del]

text \<open>
  \<^verbatim>\<open>json.load\<close>, for a text that is an array of objects whose values are strings,
  integers, true, false or null, with white space as JSON allows it.  For a text
  that is not JSON the library raises JSONDecodeError, a ValueError.  JSON with
  other values (fractions, arrays or objects inside an object, a top level that
  is not an array of objects) is outside the model, which answers ValueError for
  it too.
\<close>

definition json_load :: "string \<Rightarrow> error + json_object list" where
  "json_load text =
     (case skip_space text of
        [] \<Rightarrow> Inl ValueError
      | c # s1 \<Rightarrow>
          if c \<noteq> CHR ''['' then Inl ValueError
          else (case skip_space s1 of
                  [] \<Rightarrow> Inl ValueError
                | c1 # s2 \<Rightarrow>
                    if c1 = CHR '']'' then (if skip_space s2 = [] then Inr [] else Inl ValueError)
                    else (case parse_objects (c1 # s2) of
                            None \<Rightarrow> Inl ValueError
                          | Some (items, s3) \<Rightarrow>
                              if skip_space s3 = [] then Inr items else Inl ValueError)))"

text \<open>
  \<^verbatim>\<open>json.dump(config, f, indent=2, ensure_ascii=False)\<close>: every element of the
  list on a line of its own, indented by two spaces, every member of a
  dictionary on a line of its own, indented by four, in the order of the
  dictionary.
\<close>

fun json_value :: "json \<Rightarrow> string" where
  "json_value (JString s) = json_string s"
| "json_value (JInt n) = int_text n"
| "json_value (JBool b) = (if b then ''true'' else ''false'')"
| "json_value JNull = ''null''"

definition json_member :: "string \<times> json \<Rightarrow> string" where
  "json_member m = json_string (fst m) @ '': '' @ json_value (snd m)"

fun join :: "string \<Rightarrow> string list \<Rightarrow> string" where
  "join sep [] = []"
| "join sep [x] = x"
| "join sep (x # y # ys) = x @ sep @ join sep (y # ys)"

text \<open>What stands between two members and between two elements.\<close>

definition member_sep :: string where
  "member_sep = '','' @ [CHR 0x0A] @ ''    ''"

definition item_sep :: string where
  "item_sep = '','' @ [CHR 0x0A] @ ''  ''"

definition json_object_text :: "json_object \<Rightarrow> string" where
  "json_object_text ms =
     (if ms = [] then ''{}''
      else ''{'' @ [CHR 0x0A] @ ''    '' @ join member_sep (map json_member ms)
           @ [CHR 0x0A] @ ''  }'')"

definition json_dump :: "json_object list \<Rightarrow> string" where
  "json_dump items =
     (if items = [] then ''[]''
      else ''['' @ [CHR 0x0A] @ ''  '' @ join item_sep (map json_object_text items)
           @ [CHR 0x0A] @ '']'')"

text \<open>
  The integers \<^verbatim>\<open>json.dump\<close> can write and \<^verbatim>\<open>json.load\<close> can read have at most
  4300 digits (both go through \<^verbatim>\<open>int\<close> and \<^verbatim>\<open>str\<close>); \<open>config_ok\<close> says that of
  every integer of a configuration.  In the text that is written a value is
  followed by a comma or by a line feed.
\<close>

fun json_ok :: "json \<Rightarrow> bool" where
  "json_ok (JInt n) = (length (digits_of (nat \<bar>n\<bar>)) \<le> max_str_digits)"
| "json_ok v = True"

definition config_ok :: "json_object list \<Rightarrow> bool" where
  "config_ok items = (\<forall>item \<in> set items. \<forall>m \<in> set item. json_ok (snd m))"

definition ends_value :: "string \<Rightarrow> bool" where
  "ends_value rest = (rest \<noteq> [] \<and> (hd rest = CHR '','' \<or> hd rest = CHR 0x0A))"


subsection \<open>Saving and loading\<close>

text \<open>The loop of \<^verbatim>\<open>save_config\<close>: one dictionary for each row, in order.\<close>

fun config_of_rows :: "row list \<Rightarrow> error + json_object list" where
  "config_of_rows [] = Inr []"
| "config_of_rows (r # rs) =
     (case py_int (minutes r) of
        Inl e \<Rightarrow> Inl e
      | Inr m \<Rightarrow>
          (case py_int (seconds r) of
             Inl e \<Rightarrow> Inl e
           | Inr s \<Rightarrow>
               (case config_of_rows rs of
                  Inl e \<Rightarrow> Inl e
                | Inr items \<Rightarrow>
                    Inr ([(''name'', JString (name r)), (''minutes'', JInt m),
                          (''seconds'', JInt s), (''last_time'', JString (last_time r)),
                          (''enabled'', JBool (enabled r))] # items))))"

text \<open>
  \<^verbatim>\<open>save_config\<close>, with the file before and after (\<open>None\<close>: no file).  An exception
  in the loop is logged and the file is not opened.
\<close>

definition save_config :: "timer_state \<Rightarrow> string option \<Rightarrow> timer_state \<times> string option" where
  "save_config st file =
     (case config_of_rows (table st) of
        Inl e \<Rightarrow> (st\<lparr>events := events st @ [ConfigFailed e]\<rparr>, file)
      | Inr config \<Rightarrow> (st, Some (json_dump config)))"

definition set_row :: "nat \<Rightarrow> (row \<Rightarrow> row) \<Rightarrow> timer_state \<Rightarrow> timer_state" where
  "set_row i f st = st\<lparr>table := (table st)[i := f (table st ! i)]\<rparr>"

text \<open>
  The body of the loop of \<^verbatim>\<open>load_config\<close> for one dictionary: a new row, then its
  cells one after the other.  An exception leaves the row as far as it was
  filled.
\<close>

definition load_item :: "clock \<Rightarrow> json_object \<Rightarrow> timer_state \<Rightarrow> timer_state \<times> error option" where
  "load_item clk item st =
     (let st0 = add_boss_row clk st;
          i = length (table st0) - 1
      in case as_text (dict_get item ''name'' (JString default_name)) of
           Inl e \<Rightarrow> (st0, Some e)
         | Inr n \<Rightarrow>
             (let st1 = set_row i (\<lambda>r. r\<lparr>name := n\<rparr>) st0
              in case str_json (dict_get item ''minutes'' (JInt 60)) of
                   Inl e \<Rightarrow> (st1, Some e)
                 | Inr m \<Rightarrow>
                     (let st2 = set_row i (\<lambda>r. r\<lparr>minutes := m\<rparr>) st1
                      in case str_json (dict_get item ''seconds'' (JInt 0)) of
                           Inl e \<Rightarrow> (st2, Some e)
                         | Inr s \<Rightarrow>
                             (let st3 = set_row i (\<lambda>r. r\<lparr>seconds := s\<rparr>) st2
                              in case as_text (dict_get item ''last_time'' (JString ''00:00:00'')) of
                                   Inl e \<Rightarrow> (st3, Some e)
                                 | Inr t \<Rightarrow>
                                     (let st4 = set_row i (\<lambda>r. r\<lparr>last_time := t\<rparr>) st3
                                      in case as_checked (dict_get item ''enabled'' (JBool True)) of
                                           Inl e \<Rightarrow> (st4, Some e)
                                         | Inr b \<Rightarrow>
                                             (set_row i (\<lambda>r. r\<lparr>enabled := b\<rparr>) st4, None))))))"

fun load_items :: "clock \<Rightarrow> json_object list \<Rightarrow> timer_state \<Rightarrow> timer_state" where
  "load_items clk [] st = st"
| "load_items clk (item # rest) st =
     (case load_item clk item st of
        (st', Some e) \<Rightarrow> st'\<lparr>events := events st' @ [ConfigFailed e]\<rparr>
      | (st', None) \<Rightarrow> load_items clk rest st')"

text \<open>
  \<^verbatim>\<open>load_config\<close>, given the file (\<open>None\<close>: there is none).  An exception of
  \<^verbatim>\<open>json.load\<close> is logged like one of the loop.
\<close>

definition load_config :: "clock \<Rightarrow> string option \<Rightarrow> timer_state \<Rightarrow> timer_state" where
  "load_config clk file st =
     (case file of
        None \<Rightarrow> st
      | Some text \<Rightarrow>
          (case json_load text of
             Inl e \<Rightarrow> st\<lparr>events := events st @ [ConfigFailed e]\<rparr>
           | Inr config \<Rightarrow> load_items clk config st))"

text \<open>The five fields of a row that \<^verbatim>\<open>save_config\<close> writes, as it reads them.\<close>

definition saved_fields :: "row \<Rightarrow> string \<times> (error + int) \<times> (error + int) \<times> string \<times> bool" where
  "saved_fields r = (name r, py_int (minutes r), py_int (seconds r), last_time r, enabled r)"

section \<open>Inputs for the scenarios\<close>

text \<open>The datetime at \<open>h:m:s\<close> on day \<open>d\<close>, counting days from 0001-01-01 as day 0.\<close>

definition clock_time :: "int \<Rightarrow> int \<Rightarrow> int \<Rightarrow> int \<Rightarrow> datetime" where
  "clock_time d h m s = d * us_per_day + (h * 3600 + m * 60 + s) * us_per_second"

text \<open>A row as \<^verbatim>\<open>add_boss_row\<close> makes it, with the cells the user can edit as given.\<close>

definition boss_row :: "string \<Rightarrow> string \<Rightarrow> string \<Rightarrow> string \<Rightarrow> bool \<Rightarrow> row" where
  "boss_row n m s t e =
     \<lparr>name = n, minutes = m, seconds = s, last_time = t, next_cell = [],
      remaining_cell = [], enabled = e, progress = None\<rparr>"

section \<open>The closed form the specification asks for\<close>

text \<open>
  Written from the specification, for comparison with \<open>next_occurrence\<close>: the
  number of whole periods elapsed since the anchor, by integer division, times
  the period, added to the anchor once.
\<close>

definition spec_closed_form :: "datetime \<Rightarrow> timedelta \<Rightarrow> datetime \<Rightarrow> datetime" where
  "spec_closed_form a period now =
     (let periods_elapsed = (now - a) div period in a + periods_elapsed * period)"

section \<open>Facts about the recurrence computation\<close>

lemma us_per_day_pos: "0 < us_per_day"
  by (simp add: us_per_day_def us_per_second_def)

lemma datetime_add_ok:
  "0 \<le> t + d \<Longrightarrow> t + d < datetime_limit \<Longrightarrow> datetime_add t d = Inr (t + d)"
  by (simp add: datetime_add_def)

lemma advance_done: "now \<le> start \<Longrightarrow> advance period now start = Some (Inr start)"
  by (subst advance.simps) simp

lemma advance_step:
  "start < now \<Longrightarrow> 0 \<le> start + period \<Longrightarrow> start + period < datetime_limit \<Longrightarrow>
   advance period now start = advance period now (start + period)"
  by (subst advance.simps) (simp add: datetime_add_ok)

text \<open>
  With a positive period and room below the largest datetime the loop returns,
  and what it returns is the start plus the least multiple of the period that
  reaches \<open>now\<close>.
\<close>

lemma advance_positive:
  assumes "0 < period" "0 \<le> start" "now + period \<le> datetime_limit"
  shows "advance period now start =
           Some (Inr (if start < now
                      then start + ((now - start + period - 1) div period) * period
                      else start))"
  using assms(2)
proof (induction "nat (now - start)" arbitrary: start rule: less_induct)
  case less
  show ?case
  proof (cases "start < now")
    case False
    then show ?thesis by (simp add: advance_done)
  next
    case True
    have step: "advance period now start = advance period now (start + period)"
      using True less.prems assms(1,3) by (intro advance_step) auto
    have smaller: "nat (now - (start + period)) < nat (now - start)"
      using True assms(1) by simp
    have ih: "advance period now (start + period) =
           Some (Inr (if start + period < now
                      then start + period
                           + ((now - (start + period) + period - 1) div period) * period
                      else start + period))"
      using less.hyps[OF smaller] less.prems assms(1) by simp
    have "(now - start - 1 + period) div period = (now - start - 1) div period + 1"
      using assms(1) by simp
    then have d: "(now - start + period - 1) div period = (now - start - 1) div period + 1"
      by (simp add: algebra_simps)
    show ?thesis
    proof (cases "start + period < now")
      case True
      then show ?thesis
        using step ih d \<open>start < now\<close> by (simp add: algebra_simps)
    next
      case False
      then have "0 \<le> now - start - 1" "now - start - 1 < period"
        using \<open>start < now\<close> by auto
      then have "(now - start - 1) div period = 0"
        by (simp add: div_pos_pos_trivial)
      then show ?thesis
        using step ih d False \<open>start < now\<close> by simp
    qed
  qed
qed

text \<open>With a period of zero the loop never returns once it is entered.\<close>

lemma advance_zero_never_returns:
  assumes "advance p n s = Some r"
  shows "\<not> (p = 0 \<and> s < n \<and> 0 \<le> s \<and> s < datetime_limit)"
proof (rule advance.raw_induct
    [where P = "\<lambda>p n s r. \<not> (p = 0 \<and> s < n \<and> 0 \<le> s \<and> s < datetime_limit)", OF _ assms])
  fix adv :: "int \<Rightarrow> int \<Rightarrow> int \<Rightarrow> (error + int) option" and p n s :: int and r
  assume IH: "\<And>p n s r. adv p n s = Some r
                \<Longrightarrow> \<not> (p = 0 \<and> s < n \<and> 0 \<le> s \<and> s < datetime_limit)"
    and body: "(if s < n
                then case datetime_add s p of Inl e \<Rightarrow> Some (Inl e) | Inr t \<Rightarrow> adv p n t
                else Some (Inr s)) = Some r"
  show "\<not> (p = 0 \<and> s < n \<and> 0 \<le> s \<and> s < datetime_limit)"
  proof
    assume h: "p = 0 \<and> s < n \<and> 0 \<le> s \<and> s < datetime_limit"
    then have "adv p n s = Some r"
      using body by (simp add: datetime_add_def)
    then show False
      using IH h by blast
  qed
qed

lemma advance_zero_diverges:
  assumes "start < now" "0 \<le> start" "start < datetime_limit"
  shows "advance 0 now start = None"
  using assms advance_zero_never_returns[of 0 now start]
  by (cases "advance 0 now start") auto

text \<open>
  With a negative period the loop walks back to the smallest datetime and
  leaves with the OverflowError of the addition.
\<close>

lemma advance_negative:
  assumes "period < 0" "start < now" "start < datetime_limit"
  shows "advance period now start = Some (Inl OverflowError)"
  using assms(2,3)
proof (induction "nat start" arbitrary: start rule: less_induct)
  case less
  show ?case
  proof (cases "0 \<le> start + period")
    case False
    then show ?thesis
      using less.prems by (subst advance.simps) (simp add: datetime_add_def)
  next
    case True
    have "advance period now start = advance period now (start + period)"
      using True less.prems assms(1) by (intro advance_step) auto
    moreover have "nat (start + period) < nat start"
      using True assms(1) by simp
    ultimately show ?thesis
      using less.hyps[of "start + period"] less.prems assms(1) by simp
  qed
qed

lemma day_floor:
  shows "now div us_per_day * us_per_day \<le> now"
    and "now < now div us_per_day * us_per_day + us_per_day"
proof -
  have e: "now div us_per_day * us_per_day + now mod us_per_day = now"
    by simp
  have "0 \<le> now mod us_per_day" "now mod us_per_day < us_per_day"
    using us_per_day_pos by simp_all
  then show "now div us_per_day * us_per_day \<le> now"
    and "now < now div us_per_day * us_per_day + us_per_day"
    using e by linarith+
qed

text \<open>The anchor lies at or before \<open>now\<close>, less than a day back.\<close>

lemma anchor_bounds:
  assumes "anchor now lt = Inr a" "0 \<le> lt" "lt < us_per_day" "0 \<le> now"
  shows "0 \<le> a" and "a \<le> now" and "now - a < us_per_day"
proof -
  let ?d = "now div us_per_day * us_per_day"
  have lo: "?d \<le> now" and hi: "now < ?d + us_per_day"
    by (rule day_floor)+
  have "0 \<le> now div us_per_day"
    using us_per_day_pos assms(4) by (simp add: pos_imp_zdiv_nonneg_iff)
  then have nn: "0 \<le> ?d"
    using us_per_day_pos by simp
  show "0 \<le> a" and "a \<le> now" and "now - a < us_per_day"
    using assms(1-3) lo hi nn
    by (auto simp: anchor_def combine_date_def Let_def datetime_add_def split: if_splits)
qed

lemma anchor_ok:
  assumes "0 \<le> lt" "lt < us_per_day" "us_per_day \<le> now" "now < datetime_limit"
  shows "\<exists>a. anchor now lt = Inr a"
proof -
  let ?d = "now div us_per_day * us_per_day"
  have lo: "?d \<le> now"
    by (rule day_floor)
  have "0 < now div us_per_day"
    using assms(3) us_per_day_pos pos_imp_zdiv_pos_iff[of us_per_day now] by simp
  then have "1 \<le> now div us_per_day"
    by simp
  then have "1 * us_per_day \<le> ?d"
    using us_per_day_pos by (intro mult_right_mono) auto
  then have "0 \<le> ?d + lt - us_per_day"
    using assms(1) by simp
  moreover have "?d + lt - us_per_day < datetime_limit"
    using lo assms(2,4) by simp
  ultimately show ?thesis
    by (simp add: anchor_def combine_date_def Let_def datetime_add_def)
qed

text \<open>
  The closed form of the whole computation: one period is added to the anchor
  before the loop, so the multiplier is at least one; beyond that it is the
  ceiling of the distance to \<open>now\<close> in periods.
\<close>

lemma next_occurrence_closed:
  assumes "anchor now lt = Inr a" "0 \<le> a" "a \<le> now" "0 < period"
    and "now + period < datetime_limit"
  shows "next_occurrence lt period now =
           Some (Inr (a + max 1 ((now - a + period - 1) div period) * period))"
proof -
  have add: "datetime_add a period = Inr (a + period)"
    using assms(2-5) by (intro datetime_add_ok) auto
  have adv: "advance period now (a + period) =
           Some (Inr (if a + period < now
                      then a + period + ((now - (a + period) + period - 1) div period) * period
                      else a + period))"
    using assms(2,4,5) by (intro advance_positive) auto
  have "(now - a - 1 + period) div period = (now - a - 1) div period + 1"
    using assms(4) by simp
  then have d: "(now - a + period - 1) div period = (now - a - 1) div period + 1"
    by (simp add: algebra_simps)
  show ?thesis
  proof (cases "a + period < now")
    case True
    then have "period \<le> now - a - 1" by simp
    then have "0 < (now - a - 1) div period"
      using assms(4) pos_imp_zdiv_pos_iff[of period "now - a - 1"] by simp
    then have "1 \<le> (now - a - 1) div period"
      by simp
    then show ?thesis
      using True adv add assms(1) d by (simp add: next_occurrence_def algebra_simps max_def)
  next
    case False
    then have "now - a - 1 < period" by simp
    then have "(now - a - 1) div period \<le> 0"
      using assms(4) div_pos_pos_trivial[of "now - a - 1" period]
        div_nonpos_pos_le0[of "now - a - 1" period]
      by (cases "0 \<le> now - a - 1") simp_all
    then have "max 1 ((now - a + period - 1) div period) = 1"
      using d by simp
    then show ?thesis
      using False adv add assms(1) by (simp add: next_occurrence_def)
  qed
qed

lemma ceiling_multiple_bounds:
  fixes x p :: int
  assumes "0 < p"
  shows "x \<le> ((x + p - 1) div p) * p" and "((x + p - 1) div p) * p < x + p"
proof -
  have "(x + p - 1) = ((x + p - 1) div p) * p + (x + p - 1) mod p"
    by simp
  moreover have "0 \<le> (x + p - 1) mod p" "(x + p - 1) mod p < p"
    using assms by simp_all
  ultimately show "x \<le> ((x + p - 1) div p) * p" and "((x + p - 1) div p) * p < x + p"
    by linarith+
qed

lemma next_occurrence_closed_bounds:
  fixes a now period :: int
  assumes "a \<le> now" "0 < period"
  defines "t \<equiv> a + max 1 ((now - a + period - 1) div period) * period"
  shows "now \<le> t" and "t - period \<le> now" and "a < now \<Longrightarrow> t - period < now"
    and "a = now \<Longrightarrow> t = now + period"
proof -
  let ?c = "(now - a + period - 1) div period"
  have c1: "now - a \<le> ?c * period" and c2: "?c * period < now - a + period"
    using ceiling_multiple_bounds[OF assms(2), of "now - a"] by simp_all
  have pos: "0 \<le> ?c"
    using assms by (simp add: pos_imp_zdiv_nonneg_iff)
  show "now \<le> t"
  proof (cases "1 \<le> ?c")
    case True
    then show ?thesis using c1 by (simp add: t_def max_def)
  next
    case False
    then have "?c = 0" using pos by simp
    then show ?thesis using c1 assms by (simp add: t_def)
  qed
  show "t - period \<le> now"
    using c2 assms by (auto simp: t_def max_def)
  show "a < now \<Longrightarrow> t - period < now"
    using c2 assms by (auto simp: t_def max_def)
  show "a = now \<Longrightarrow> t = now + period"
    using assms by (simp add: t_def div_pos_pos_trivial)
qed

section \<open>Facts about floating point\<close>

text \<open>The exponent of the binade is what its name says.\<close>

lemma log2_floor_bounds:
  "0 < n \<Longrightarrow> 2 ^ log2_floor n \<le> n \<and> n < 2 * 2 ^ log2_floor n"
proof (induction n rule: log2_floor.induct)
  case (1 n)
  show ?case
  proof (cases "n < 2")
    case True
    then have "log2_floor n = 0"
      by (subst log2_floor.simps) simp
    then show ?thesis
      using True "1.prems" by simp
  next
    case False
    then have e: "log2_floor n = Suc (log2_floor (n div 2))"
      by (subst log2_floor.simps) simp
    have "0 < n div 2"
      using False by simp
    then have ih: "2 ^ log2_floor (n div 2) \<le> n div 2"
      "n div 2 < 2 * 2 ^ log2_floor (n div 2)"
      using "1.IH"[OF False] by simp_all
    show ?thesis
      using ih unfolding e by simp linarith
  qed
qed

lemma binade_bounds:
  assumes "0 < x"
  shows "2 powi binade x \<le> x" and "x < 2 powi (binade x + 1)"
proof -
  have "2 powi binade x \<le> x \<and> x < 2 powi (binade x + 1)"
  proof (cases "1 \<le> x")
    case True
    define n where "n = nat \<lfloor>x\<rfloor>"
    define k where "k = log2_floor n"
    have "1 \<le> \<lfloor>x\<rfloor>"
      using True by simp
    then have n: "0 < n" "int n = \<lfloor>x\<rfloor>"
      by (simp_all add: n_def)
    have lo: "2 ^ k \<le> n" and hi: "n < 2 * 2 ^ k"
      using log2_floor_bounds[OF n(1)] by (simp_all add: k_def)
    have nx: "(of_nat n :: rat) \<le> x" "x < of_nat n + 1"
    proof -
      have "(of_int \<lfloor>x\<rfloor> :: rat) \<le> x" "x < of_int \<lfloor>x\<rfloor> + 1"
        by linarith+
      then show "(of_nat n :: rat) \<le> x" "x < of_nat n + 1"
        using n(2) by (metis of_int_of_nat_eq)+
    qed
    have b: "binade x = int k"
      using True by (simp add: binade_def n_def k_def)
    have "(2 :: rat) ^ k \<le> of_nat n"
      using lo by (metis of_nat_le_iff of_nat_numeral of_nat_power)
    moreover have "2 powi binade x = (2 :: rat) ^ k"
      by (simp add: b)
    ultimately have 1: "2 powi binade x \<le> x"
      using nx(1) by linarith
    have "n + 1 \<le> 2 * 2 ^ k"
      using hi by simp
    then have "(of_nat (n + 1) :: rat) \<le> of_nat (2 * 2 ^ k)"
      by (simp only: of_nat_le_iff)
    then have "(of_nat n :: rat) + 1 \<le> 2 * 2 ^ k"
      by simp
    then have 2: "x < 2 powi (binade x + 1)"
      using nx(2) by (simp add: b power_int_add)
    show ?thesis
      using 1 2 by simp
  next
    case False
    define m where "m = nat \<lceil>1 / x\<rceil>"
    define k where "k = log2_floor (m - 1)"
    have x1: "x < 1"
      using False by simp
    then have "1 < 1 / x"
      using assms by simp
    then have c2: "2 \<le> \<lceil>1 / x\<rceil>"
      by linarith
    then have "0 \<le> \<lceil>1 / x\<rceil>"
      by linarith
    then have mi: "int m = \<lceil>1 / x\<rceil>"
      by (simp only: m_def int_nat_eq if_True)
    then have m: "2 \<le> m" "int m = \<lceil>1 / x\<rceil>"
      using c2 by linarith+
    have lo: "2 ^ k \<le> m - 1" and hi: "m - 1 < 2 * 2 ^ k"
      using log2_floor_bounds[of "m - 1"] m(1) by (simp_all add: k_def)
    have b: "binade x = - int (Suc k)"
      using False by (simp add: binade_def m_def k_def)
    have cx: "1 / x \<le> of_nat m" "(of_nat m :: rat) - 1 < 1 / x"
    proof -
      have "1 / x \<le> of_int \<lceil>1 / x\<rceil>" "(of_int \<lceil>1 / x\<rceil> :: rat) - 1 < 1 / x"
        by linarith+
      then show "1 / x \<le> of_nat m" "(of_nat m :: rat) - 1 < 1 / x"
        using m(2) by (metis of_int_of_nat_eq)+
    qed
    have "m \<le> 2 * 2 ^ k"
      using hi by simp
    then have "(of_nat m :: rat) \<le> of_nat (2 * 2 ^ k)"
      by (simp only: of_nat_le_iff)
    then have "1 / x \<le> 2 ^ Suc k"
      using cx(1) by simp
    then have "1 \<le> 2 ^ Suc k * x"
      using assms by (simp add: pos_divide_le_eq)
    then have "1 / 2 ^ Suc k \<le> x"
      by (simp add: pos_divide_le_eq mult.commute)
    moreover have "2 powi binade x = 1 / (2 :: rat) ^ Suc k"
      unfolding b by (simp only: power_int_minus_divide power_int_of_nat)
    ultimately have 1: "2 powi binade x \<le> x"
      by (simp only:)
    have "(of_nat (2 ^ k) :: rat) \<le> of_nat (m - 1)"
      using lo by (simp only: of_nat_le_iff)
    then have "(2 :: rat) ^ k \<le> of_nat m - 1"
      using m(1) by (simp add: of_nat_diff)
    then have "(2 :: rat) ^ k < 1 / x"
      using cx(2) by simp
    then have "2 ^ k * x < 1"
      using assms by (simp add: pos_less_divide_eq)
    then have "x < 1 / 2 ^ k"
      by (simp add: pos_less_divide_eq mult.commute)
    moreover have "binade x + 1 = - int k"
      by (simp add: b)
    ultimately have 2: "x < 2 powi (binade x + 1)"
      by (simp add: power_int_minus_divide)
    show ?thesis
      using 1 2 by simp
  qed
  then show "2 powi binade x \<le> x" and "x < 2 powi (binade x + 1)"
    by simp_all
qed

lemma binade_unique:
  assumes "0 < x" "2 powi e \<le> x" "x < 2 powi (e + 1)"
  shows "binade x = e"
proof (rule ccontr)
  assume ne: "binade x \<noteq> e"
  have b: "2 powi binade x \<le> x" "x < 2 powi (binade x + 1)"
    using binade_bounds[OF assms(1)] by simp_all
  show False
  proof (cases "binade x < e")
    case True
    then have "(2 :: rat) powi (binade x + 1) \<le> 2 powi e"
      by (intro power_int_increasing) simp_all
    then show False
      using b(2) assms(2) by simp
  next
    case False
    then have "e + 1 \<le> binade x"
      using ne by simp
    then have "(2 :: rat) powi (e + 1) \<le> 2 powi binade x"
      by (intro power_int_increasing) simp_all
    then show False
      using b(1) assms(3) by simp
  qed
qed

lemma binade_mono:
  assumes "0 < x" "x \<le> y"
  shows "binade x \<le> binade y"
proof (rule ccontr)
  assume "\<not> binade x \<le> binade y"
  then have "binade y + 1 \<le> binade x"
    by simp
  then have "(2 :: rat) powi (binade y + 1) \<le> 2 powi binade x"
    by (intro power_int_increasing) simp_all
  moreover have "2 powi binade x \<le> x" "y < 2 powi (binade y + 1)"
    using binade_bounds assms by simp_all
  ultimately show False
    using assms(2) by simp
qed

lemma round_half_even_of_int: "round_half_even (of_int n) = n"
  by (simp add: round_half_even_def)

lemma round_half_even_floor:
  "\<lfloor>x\<rfloor> \<le> round_half_even x" "round_half_even x \<le> \<lfloor>x\<rfloor> + 1"
  by (simp_all add: round_half_even_def Let_def)

lemma round_half_even_mono:
  assumes "x \<le> y"
  shows "round_half_even x \<le> round_half_even y"
proof (cases "\<lfloor>x\<rfloor> < \<lfloor>y\<rfloor>")
  case True
  then show ?thesis
    using round_half_even_floor(2)[of x] round_half_even_floor(1)[of y] by linarith
next
  case False
  moreover have "\<lfloor>x\<rfloor> \<le> \<lfloor>y\<rfloor>"
    using assms by (rule floor_mono)
  ultimately have e: "\<lfloor>x\<rfloor> = \<lfloor>y\<rfloor>"
    by simp
  show ?thesis
    using assms unfolding round_half_even_def Let_def e by auto
qed

lemma double_of_pos_eq:
  assumes "0 < x" "2 powi e \<le> x" "x < 2 powi (e + 1)"
  shows "double_of_pos x
           = of_int (round_half_even (x / 2 powi (e - 52))) * 2 powi (e - 52)"
  using binade_unique[OF assms] by (simp add: double_of_pos_def Let_def)

lemma double_of_pos_bounds:
  assumes "0 < x"
  shows "2 powi binade x \<le> double_of_pos x" and "double_of_pos x \<le> 2 powi (binade x + 1)"
proof -
  define e where "e = binade x"
  define u :: rat where "u = 2 powi (e - 52)"
  have u: "0 < u"
    by (simp add: u_def)
  have p: "(2 :: rat) powi e = 2 ^ 52 * u" "(2 :: rat) powi (e + 1) = 2 ^ 53 * u"
  proof -
    have "(2 :: rat) powi e = 2 powi (52 + (e - 52))"
      by simp
    also have "\<dots> = 2 powi 52 * 2 powi (e - 52)"
      by (rule power_int_add) simp
    finally show "(2 :: rat) powi e = 2 ^ 52 * u"
      by (simp add: u_def)
    have "e + 1 = 53 + (e - 52)"
      by simp
    then have "(2 :: rat) powi (e + 1) = 2 powi (53 + (e - 52))"
      by (rule arg_cong)
    also have "\<dots> = 2 powi 53 * 2 powi (e - 52)"
      by (rule power_int_add) simp
    finally show "(2 :: rat) powi (e + 1) = 2 ^ 53 * u"
      by (simp add: u_def)
  qed
  have b: "2 ^ 52 * u \<le> x" "x < 2 ^ 53 * u"
    using binade_bounds[OF assms] by (simp_all add: e_def[symmetric] p)
  have "(of_int (2 ^ 52) :: rat) \<le> x / u" "x / u \<le> of_int (2 ^ 53)"
    using b u by (simp_all add: pos_le_divide_eq pos_divide_le_eq)
  then have "round_half_even (of_int (2 ^ 52)) \<le> round_half_even (x / u)"
    and "round_half_even (x / u) \<le> round_half_even (of_int (2 ^ 53))"
    by (simp_all only: round_half_even_mono)
  then have r: "2 ^ 52 \<le> round_half_even (x / u)" "round_half_even (x / u) \<le> 2 ^ 53"
    by (simp_all only: round_half_even_of_int)
  have "(of_int (2 ^ 52) :: rat) \<le> of_int (round_half_even (x / u))"
    and "(of_int (round_half_even (x / u)) :: rat) \<le> of_int (2 ^ 53)"
    using r by (simp_all only: of_int_le_iff)
  then have "2 ^ 52 * u \<le> of_int (round_half_even (x / u)) * u"
    and "of_int (round_half_even (x / u)) * u \<le> 2 ^ 53 * u"
    using u by simp_all
  moreover have "double_of_pos x = of_int (round_half_even (x / u)) * u"
    by (simp add: double_of_pos_def u_def e_def Let_def)
  ultimately show "2 powi binade x \<le> double_of_pos x"
    and "double_of_pos x \<le> 2 powi (binade x + 1)"
    by (simp_all add: e_def[symmetric] p)
qed

lemma double_of_pos_positive: "0 < x \<Longrightarrow> 0 < double_of_pos x"
proof -
  assume "0 < x"
  then have "2 powi binade x \<le> double_of_pos x"
    by (rule double_of_pos_bounds)
  moreover have "(0 :: rat) < 2 powi binade x"
    by simp
  ultimately show ?thesis
    by linarith
qed

lemma double_of_pos_mono:
  assumes "0 < x" "x \<le> y"
  shows "double_of_pos x \<le> double_of_pos y"
proof (cases "binade x = binade y")
  case True
  have "x / 2 powi (binade y - 52) \<le> y / 2 powi (binade y - 52)"
    using assms(2) by (simp add: divide_right_mono)
  then have "round_half_even (x / 2 powi (binade y - 52))
               \<le> round_half_even (y / 2 powi (binade y - 52))"
    by (rule round_half_even_mono)
  then have "(of_int (round_half_even (x / 2 powi (binade y - 52))) :: rat)
               \<le> of_int (round_half_even (y / 2 powi (binade y - 52)))"
    by (simp only: of_int_le_iff)
  then show ?thesis
    using zero_le_power_int[of "2 :: rat" "binade y - 52"]
    by (simp add: double_of_pos_def True Let_def mult_right_mono)
next
  case False
  then have "binade x + 1 \<le> binade y"
    using binade_mono[OF assms] by simp
  then have "(2 :: rat) powi (binade x + 1) \<le> 2 powi binade y"
    by (intro power_int_increasing) simp_all
  moreover have "double_of_pos x \<le> 2 powi (binade x + 1)"
    using assms(1) by (rule double_of_pos_bounds)
  moreover have "2 powi binade y \<le> double_of_pos y"
    using assms by (intro double_of_pos_bounds) simp
  ultimately show ?thesis
    by linarith
qed

lemma double_of_sign:
  "0 < double_of x \<longleftrightarrow> 0 < x" "double_of x < 0 \<longleftrightarrow> x < 0"
  "0 \<le> double_of x \<longleftrightarrow> 0 \<le> x" "double_of x \<le> 0 \<longleftrightarrow> x \<le> 0"
  using double_of_pos_positive[of x] double_of_pos_positive[of "- x"]
  by (auto simp: double_of_def)

lemma double_of_mono:
  assumes "x \<le> y"
  shows "double_of x \<le> double_of y"
proof -
  consider "0 < x" | "x \<le> 0" "0 \<le> y" | "y < 0"
    using assms by linarith
  then show ?thesis
  proof cases
    case 1
    then show ?thesis
      using assms double_of_pos_mono[of x y] by (simp add: double_of_def)
  next
    case 2
    then show ?thesis
      using double_of_sign(3)[of y] double_of_sign(4)[of x] by linarith
  next
    case 3
    then have "double_of_pos (- y) \<le> double_of_pos (- x)"
      using assms by (intro double_of_pos_mono) simp_all
    then show ?thesis
      using 3 assms by (simp add: double_of_def)
  qed
qed

text \<open>An integer of at most 53 bits is a double.\<close>

lemma double_of_int:
  assumes "\<bar>n\<bar> < 2 ^ 53"
  shows "double_of (of_int n) = of_int n"
proof -
  have pos: "double_of_pos (of_int m) = of_int m" if m: "0 < m" "m < 2 ^ 53" for m :: int
  proof -
    define e where "e = binade (of_int m)"
    have mp: "(0 :: rat) < of_int m"
      using m(1) by simp
    have b: "2 powi e \<le> (of_int m :: rat)" "(of_int m :: rat) < 2 powi (e + 1)"
      using binade_bounds[OF mp] by (simp_all add: e_def)
    have "(1 :: rat) \<le> of_int m"
      using m(1) by simp
    then have "binade (1 :: rat) \<le> e"
      unfolding e_def by (intro binade_mono) simp_all
    moreover have "binade (1 :: rat) = 0"
      by (rule binade_unique) simp_all
    ultimately have e0: "0 \<le> e"
      by simp
    have "(of_int m :: rat) < 2 powi 53"
      using m(2) by (metis of_int_less_iff of_int_numeral of_int_power power_int_numeral
          numeral_power_eq_of_int_cancel_iff of_int_power_less_of_int_cancel_iff)
    then have "(2 :: rat) powi e < 2 powi 53"
      using b(1) by linarith
    then have "e < 53"
      by (rule power_int_le_imp_less_exp[rotated]) simp_all
    then have e52: "e \<le> 52"
      by simp
    define j where "j = nat (52 - e)"
    have j: "e - 52 = - int j"
      using e52 by (simp add: j_def)
    have u: "(2 :: rat) powi (e - 52) = 1 / 2 ^ j"
      unfolding j by (simp add: power_int_minus_divide)
    have "(of_int m :: rat) / 2 powi (e - 52) = of_int (m * 2 ^ j)"
      by (simp add: u)
    then have "round_half_even (of_int m / 2 powi (e - 52)) = m * 2 ^ j"
      by (simp only: round_half_even_of_int)
    then show ?thesis
      by (simp add: double_of_pos_def e_def[symmetric] u Let_def)
  qed
  consider "n = 0" | "0 < n" | "n < 0"
    by linarith
  then show ?thesis
  proof cases
    case 1
    then show ?thesis by (simp add: double_of_def)
  next
    case 2
    then show ?thesis
      using pos[of n] assms by (simp add: double_of_def)
  next
    case 3
    then show ?thesis
      using pos[of "- n"] assms by (simp add: double_of_def)
  qed
qed

lemma floor_rat_numeral: "\<lfloor>numeral a / numeral b :: rat\<rfloor> = numeral a div numeral b"
  using floor_divide_of_int_eq[of "numeral a" "numeral b", where ?'a = rat] by simp

lemma double_of_exact:
  "double_of 0 = 0" "double_of 1 = 1" "double_of 100 = 100"
  "double_of 178 = 178" "double_of 180 = 180"
  using double_of_int[of 0] double_of_int[of 1] double_of_int[of 100]
    double_of_int[of 178] double_of_int[of 180]
  by simp_all

text \<open>
  The doubles next to 178 and 180 among the quotients of microseconds: one
  microsecond below 178 seconds is a float below 178, one microsecond above 180
  seconds a float above 180.
\<close>

lemma double_of_below_178: "double_of (177999999 / 1000000) < 178"
proof -
  have "double_of_pos (177999999 / 1000000)
          = of_int (round_half_even ((177999999 / 1000000) / 2 powi (7 - 52))) * 2 powi (7 - 52)"
    by (rule double_of_pos_eq) simp_all
  then show ?thesis
    by (simp add: double_of_def round_half_even_def power_int_minus_divide Let_def
        floor_rat_numeral)
qed

lemma double_of_above_180: "180 < double_of (180000001 / 1000000)"
proof -
  have "double_of_pos (180000001 / 1000000)
          = of_int (round_half_even ((180000001 / 1000000) / 2 powi (7 - 52))) * 2 powi (7 - 52)"
    by (rule double_of_pos_eq) simp_all
  then show ?thesis
    by (simp add: double_of_def round_half_even_def power_int_minus_divide Let_def
        floor_rat_numeral)
qed





section \<open>The claims about the recurrence computation\<close>

text \<open>
  Claim C2, as amended.  For a positive period, a last trigger that is a time of
  day, and a \<open>now\<close> after the first day of the calendar with room for one period
  below the largest datetime, the recurrence computation of
  \<^verbatim>\<open>refresh_all_timers\<close> returns, and returns a \<open>t\<close> with \<open>t \<ge> now\<close> and
  \<open>t - period \<le> now\<close>.  The second bound is strict whenever the anchor lies
  before \<open>now\<close>; when the anchor is \<open>now\<close> itself the result is \<open>now + period\<close>.
\<close>

theorem next_occurrence_bounds:
  assumes "0 < period" "0 \<le> lt" "lt < us_per_day" "us_per_day \<le> now"
    and "now + period < datetime_limit"
  shows "\<exists>a t. anchor now lt = Inr a \<and> next_occurrence lt period now = Some (Inr t)
           \<and> now \<le> t \<and> t - period \<le> now
           \<and> (a < now \<longrightarrow> t - period < now) \<and> (a = now \<longrightarrow> t = now + period)"
proof -
  have v: "now < datetime_limit" "0 \<le> now"
    using assms us_per_day_pos by simp_all
  obtain a where a: "anchor now lt = Inr a"
    using anchor_ok[OF assms(2,3,4) v(1)] by blast
  have ab: "0 \<le> a" "a \<le> now"
    using anchor_bounds[OF a assms(2,3) v(2)] by simp_all
  have n: "next_occurrence lt period now =
             Some (Inr (a + max 1 ((now - a + period - 1) div period) * period))"
    using a ab assms(1,5) by (rule next_occurrence_closed)
  show ?thesis
    using a n next_occurrence_closed_bounds[OF ab(2) assms(1)] by auto
qed

theorem next_occurrence_bounds_witness:
  "next_occurrence (clock_time 0 10 0 0) (3600 * us_per_second) (clock_time 738885 13 5 0)
     = Some (Inr (clock_time 738885 14 0 0))
   \<and> clock_time 738885 13 5 0 \<le> clock_time 738885 14 0 0
   \<and> clock_time 738885 14 0 0 - 3600 * us_per_second < clock_time 738885 13 5 0"
  using next_occurrence_bounds
    [of "3600 * us_per_second" "clock_time 0 10 0 0" "clock_time 738885 13 5 0"]
  by (simp add: clock_time_def us_per_second_def us_per_day_def datetime_limit_def
      next_occurrence_def anchor_def combine_date_def datetime_add_def advance.simps)

text \<open>
  The strict bound of claim C2 fails when the last trigger is \<open>now\<close>: with a
  period of one hour, a last trigger of 10:00:00 and \<open>now\<close> at 10:00:00 sharp
  the result is 11:00:00, exactly one period after \<open>now\<close>.
\<close>

theorem next_occurrence_strict_bound_counterexample:
  "next_occurrence (clock_time 0 10 0 0) (3600 * us_per_second) (clock_time 738885 10 0 0)
     = Some (Inr (clock_time 738885 11 0 0))
   \<and> \<not> (clock_time 738885 11 0 0 - 3600 * us_per_second < clock_time 738885 10 0 0)"
  by (simp add: clock_time_def us_per_second_def us_per_day_def datetime_limit_def
      next_occurrence_def anchor_def combine_date_def datetime_add_def advance.simps)

text \<open>
  Claim C3.  A row whose period cells hold 0 and 0, with a last trigger of
  10:00:00, refreshed one second later: the loop of \<^verbatim>\<open>refresh_all_timers\<close> adds
  a period of zero for ever, and the refresh never returns.  It hangs in the
  state it had read the clock in, before anything is displayed or logged.
\<close>

theorem zero_period_refresh_diverges:
  "refresh_all_timers (\<lambda>k. clock_time 738885 10 0 1)
     (initial_state\<lparr>table := [boss_row ''boss'' ''0'' ''0'' ''10:00:00'' True]\<rparr>)
   = Hung (initial_state\<lparr>table := [boss_row ''boss'' ''0'' ''0'' ''10:00:00'' True],
                          reads := 1\<rparr>)"
proof -
  let ?now = "clock_time 738885 10 0 1"
  have p: "parse_row (boss_row ''boss'' ''0'' ''0'' ''10:00:00'' True)
             = Inr (0, 0, clock_time 0 10 0 0)"
    by code_simp
  have "advance 0 ?now (clock_time 738885 10 0 0) = None"
    by (rule advance_zero_diverges)
       (simp_all add: clock_time_def us_per_second_def us_per_day_def datetime_limit_def)
  then have n: "next_occurrence (clock_time 0 10 0 0) 0 ?now = None"
    by (simp add: clock_time_def us_per_second_def us_per_day_def datetime_limit_def
        next_occurrence_def anchor_def combine_date_def datetime_add_def)
  have t: "timedelta_of 0 0 = Inr 0"
    by (simp add: timedelta_of_def)
  show ?thesis
    by (simp add: refresh_all_timers.simps refresh_body_def initial_state_def
        refresh_row_def p n t)
qed

text \<open>
  Claim C4, as amended.  Under the conditions of C2 the loop of
  \<^verbatim>\<open>refresh_all_timers\<close> returns the anchor plus \<open>k\<close> periods, where \<open>k\<close> is the
  number of periods needed to reach \<open>now\<close>, rounded up, and at least one:
  \<open>k = max 1 ((now - anchor + period - 1) div period)\<close>.
\<close>

theorem next_occurrence_closed_form:
  assumes "0 < period" "0 \<le> lt" "lt < us_per_day" "us_per_day \<le> now"
    and "now + period < datetime_limit"
  shows "\<exists>a. anchor now lt = Inr a \<and> a \<le> now
           \<and> next_occurrence lt period now =
               Some (Inr (a + max 1 ((now - a + period - 1) div period) * period))"
proof -
  have v: "now < datetime_limit" "0 \<le> now"
    using assms us_per_day_pos by simp_all
  obtain a where a: "anchor now lt = Inr a"
    using anchor_ok[OF assms(2,3,4) v(1)] by blast
  have ab: "0 \<le> a" "a \<le> now"
    using anchor_bounds[OF a assms(2,3) v(2)] by simp_all
  show ?thesis
    using a ab next_occurrence_closed[OF a ab assms(1,5)] by blast
qed

text \<open>
  A long idle interval: a period of one second and a last trigger of 10:00:00,
  seen at 09:59:59.  The anchor is 10:00:00 of the day before, and 86399 periods
  later the next occurrence is \<open>now\<close>.
\<close>

theorem next_occurrence_closed_form_witness:
  "anchor (clock_time 738885 9 59 59) (clock_time 0 10 0 0) = Inr (clock_time 738884 10 0 0)
   \<and> next_occurrence (clock_time 0 10 0 0) us_per_second (clock_time 738885 9 59 59)
       = Some (Inr (clock_time 738885 9 59 59))"
  using next_occurrence_closed_form
    [of us_per_second "clock_time 0 10 0 0" "clock_time 738885 9 59 59"]
  by (simp add: clock_time_def us_per_second_def us_per_day_def datetime_limit_def
      anchor_def combine_date_def datetime_add_def)

text \<open>
  The closed form in the words of the specification (whole periods elapsed, by
  integer division) is not what the code computes: for a period of one hour, a
  last trigger of 10:00:00 and \<open>now\<close> at 13:05:00 it gives 13:00:00, the code's
  loop 14:00:00.
\<close>

theorem spec_closed_form_counterexample:
  "anchor (clock_time 738885 13 5 0) (clock_time 0 10 0 0) = Inr (clock_time 738885 10 0 0)
   \<and> next_occurrence (clock_time 0 10 0 0) (3600 * us_per_second) (clock_time 738885 13 5 0)
       = Some (Inr (clock_time 738885 14 0 0))
   \<and> spec_closed_form (clock_time 738885 10 0 0) (3600 * us_per_second)
        (clock_time 738885 13 5 0) = clock_time 738885 13 0 0"
  by (simp add: clock_time_def us_per_second_def us_per_day_def datetime_limit_def
      next_occurrence_def anchor_def combine_date_def datetime_add_def advance.simps
      spec_closed_form_def)

section \<open>Facts about the string functions\<close>

lemma digit_char_code: "k < 10 \<Longrightarrow> (of_char (digit_char k) :: nat) = 48 + k"
  by (simp add: digit_char_def)

lemma digit_char_is_digit: "k < 10 \<Longrightarrow> is_digit (digit_char k)"
  by (simp add: is_digit_def digit_char_code)

lemma digit_val_digit_char: "k < 10 \<Longrightarrow> digit_val (digit_char k) = k"
  by (simp add: digit_val_def digit_char_code)

lemma digit_not_space: "is_digit c \<Longrightarrow> \<not> is_space c"
  by (auto simp: is_digit_def is_space_def)

lemma digit_not_sign: "is_digit c \<Longrightarrow> c \<noteq> CHR ''-'' \<and> c \<noteq> CHR ''+''"
  by (auto simp: is_digit_def)

lemma digit_val_le: "is_digit c \<Longrightarrow> digit_val c \<le> 9"
  by (auto simp: is_digit_def digit_val_def)

lemma digits_of_nonempty: "digits_of n \<noteq> []"
  by (subst digits_of.simps) simp

lemma digits_of_digits: "c \<in> set (digits_of n) \<Longrightarrow> is_digit c"
proof (induction n arbitrary: c rule: digits_of.induct)
  case (1 n)
  show ?case
  proof (cases "n < 10")
    case True
    then show ?thesis
      using "1.prems" by (subst (asm) digits_of.simps) (simp add: digit_char_is_digit)
  next
    case False
    then have "c \<in> set (digits_of (n div 10)) \<or> c = digit_char (n mod 10)"
      using "1.prems" by (subst (asm) digits_of.simps) auto
    then show ?thesis
      using "1.IH"[OF False] by (auto simp: digit_char_is_digit)
  qed
qed

lemma int_digits_snoc:
  assumes "\<forall>c \<in> set xs. is_digit c" "is_digit d"
  shows "int_digits acc (xs @ [d]) =
           map_option (\<lambda>v. 10 * v + digit_val d) (int_digits acc xs)"
  using assms(1) by (induction xs arbitrary: acc) (simp_all add: assms(2))

text \<open>Reading the digits of \<open>n\<close> appends them to what was read before.\<close>

lemma int_digits_digits_of:
  "int_digits acc (digits_of n) = Some (acc * 10 ^ length (digits_of n) + n)"
proof (induction n arbitrary: acc rule: digits_of.induct)
  case (1 n)
  show ?case
  proof (cases "n < 10")
    case True
    then have "digits_of n = [digit_char n]"
      by (subst digits_of.simps) simp
    then show ?thesis
      using True by (simp add: digit_char_is_digit digit_val_digit_char)
  next
    case False
    have e: "digits_of n = digits_of (n div 10) @ [digit_char (n mod 10)]"
      using False by (subst digits_of.simps) simp
    have all: "\<forall>c \<in> set (digits_of (n div 10)). is_digit c"
      using digits_of_digits by blast
    have "int_digits acc (digits_of n) =
            map_option (\<lambda>v. 10 * v + digit_val (digit_char (n mod 10)))
              (int_digits acc (digits_of (n div 10)))"
      unfolding e using all by (rule int_digits_snoc) (simp add: digit_char_is_digit)
    also have "\<dots> = Some (10 * (acc * 10 ^ length (digits_of (n div 10)) + n div 10) + n mod 10)"
      using "1.IH"[OF False] by (simp add: digit_val_digit_char)
    also have "\<dots> = Some (acc * 10 ^ length (digits_of n) + n)"
      unfolding e by (simp add: algebra_simps)
    finally show ?thesis .
  qed
qed

lemma strip_id:
  assumes "s \<noteq> []" "\<not> is_space (hd s)" "\<not> is_space (last s)"
  shows "strip s = s"
proof -
  have a: "dropWhile is_space s = s"
    using assms by (simp add: dropWhile_eq_self_iff)
  have b: "dropWhile is_space (rev s) = rev s"
    using assms by (simp add: dropWhile_eq_self_iff hd_rev)
  show ?thesis
    by (simp add: strip_def a b)
qed

lemma digits_of_all_digits: "filter is_digit (digits_of n) = digits_of n"
  using digits_of_digits by (simp add: filter_id_conv)

lemma py_int_digits_of:
  assumes "length (digits_of n) \<le> max_str_digits"
  shows "py_int (digits_of n) = Inr (int n)"
proof -
  let ?s = "digits_of n"
  have ne: "?s \<noteq> []" by (rule digits_of_nonempty)
  then have h: "is_digit (hd ?s)" and l: "is_digit (last ?s)"
    using digits_of_digits[of _ n] by simp_all
  have s: "strip ?s = ?s"
    using ne h l by (intro strip_id) (simp_all add: digit_not_space)
  show ?thesis
    using ne h digit_not_sign[OF h] int_digits_digits_of[of 0 n] assms
    by (simp add: py_int_def s Let_def digits_of_all_digits)
qed

lemma py_int_minus_digits_of:
  assumes "length (digits_of n) \<le> max_str_digits"
  shows "py_int (CHR ''-'' # digits_of n) = Inr (- int n)"
proof -
  let ?s = "CHR ''-'' # digits_of n"
  have ne: "digits_of n \<noteq> []" by (rule digits_of_nonempty)
  then have h: "is_digit (hd (digits_of n))" and l: "is_digit (last (digits_of n))"
    using digits_of_digits[of _ n] by simp_all
  have "\<not> is_space (CHR ''-'')"
    by (simp add: is_space_def)
  then have s: "strip ?s = ?s"
    using ne l by (intro strip_id) (simp_all add: digit_not_space)
  show ?thesis
    using ne h int_digits_digits_of[of 0 n] assms
    by (simp add: py_int_def s Let_def digits_of_all_digits)
qed

lemma py_int_int_text:
  assumes "length (digits_of (nat \<bar>n\<bar>)) \<le> max_str_digits"
  shows "py_int (int_text n) = Inr n"
proof (cases "n < 0")
  case True
  then have "nat \<bar>n\<bar> = nat (- n)"
    by simp
  then show ?thesis
    using True assms py_int_minus_digits_of[of "nat (- n)"] by (simp add: int_text_def)
next
  case False
  then have "nat \<bar>n\<bar> = nat n"
    by simp
  then show ?thesis
    using False assms py_int_digits_of[of "nat n"] by (simp add: int_text_def)
qed

text \<open>What \<open>int_digits\<close> reads is below the power of ten of the number of digits.\<close>

lemma int_digits_bound:
  "int_digits acc cs = Some v \<Longrightarrow> v < (acc + 1) * 10 ^ length (filter is_digit cs)"
proof (induction cs arbitrary: acc)
  case Nil
  then show ?case by simp
next
  case (Cons c cs)
  show ?case
  proof (cases "is_digit c")
    case True
    then have "int_digits (10 * acc + digit_val c) cs = Some v"
      using Cons.prems by simp
    then have "v < (10 * acc + digit_val c + 1) * 10 ^ length (filter is_digit cs)"
      by (rule Cons.IH)
    also have "\<dots> \<le> (10 * acc + 10) * 10 ^ length (filter is_digit cs)"
      using digit_val_le[OF True] by (intro mult_right_mono) simp_all
    finally show ?thesis
      using True by (simp add: algebra_simps)
  next
    case False
    then have "int_digits acc cs = Some v"
      using Cons.prems by (simp split: if_splits)
    then show ?thesis
      using Cons.IH False by simp
  qed
qed

lemma digits_of_length: "n < 10 ^ k \<Longrightarrow> 0 < k \<Longrightarrow> length (digits_of n) \<le> k"
proof (induction n arbitrary: k rule: digits_of.induct)
  case (1 n)
  show ?case
  proof (cases "n < 10")
    case True
    then show ?thesis
      using "1.prems" by (subst digits_of.simps) simp
  next
    case False
    obtain j where k: "k = Suc j"
      using "1.prems"(2) by (cases k) simp_all
    have j: "0 < j"
    proof (rule ccontr)
      assume "\<not> 0 < j"
      then have "n < 10"
        using "1.prems"(1) k by simp
      then show False
        using False by simp
    qed
    have "n < 10 * 10 ^ j"
      using "1.prems"(1) k by simp
    then have "n div 10 < 10 ^ j"
      by simp
    then have "length (digits_of (n div 10)) \<le> j"
      using j by (rule "1.IH"[OF False])
    then show ?thesis
      using False k by (subst digits_of.simps) simp
  qed
qed

text \<open>An integer that \<^verbatim>\<open>int\<close> has read has at most 4300 digits.\<close>

lemma py_int_magnitude:
  assumes "py_int s = Inr n"
  shows "length (digits_of (nat \<bar>n\<bar>)) \<le> max_str_digits"
proof -
  define t where "t = strip s"
  define body where
    "body = (if t \<noteq> [] \<and> (hd t = CHR ''-'' \<or> hd t = CHR ''+'') then tl t else t)"
  have ne: "body \<noteq> []" and hd: "is_digit (hd body)"
    and len: "length (filter is_digit body) \<le> max_str_digits"
    using assms unfolding py_int_def t_def[symmetric] Let_def body_def[symmetric]
    by (auto split: if_splits)
  obtain v where v: "int_digits 0 body = Some v" and n: "nat \<bar>n\<bar> = v"
    using assms unfolding py_int_def t_def[symmetric] Let_def body_def[symmetric]
    by (auto split: if_splits option.splits)
  have "0 < length (filter is_digit body)"
    using ne hd by (cases body) simp_all
  moreover have "v < 10 ^ length (filter is_digit body)"
    using int_digits_bound[OF v] by simp
  ultimately have "length (digits_of v) \<le> length (filter is_digit body)"
    by (intro digits_of_length)
  then show ?thesis
    using len n by simp
qed

text \<open>\<^verbatim>\<open>str(int(s))\<close> does not raise, and \<^verbatim>\<open>int(str(int(s))) == int(s)\<close>.\<close>

lemma py_str_py_int:
  assumes "py_int s = Inr n"
  shows "py_str n = Inr (int_text n)" and "py_int (int_text n) = Inr n"
  using py_int_magnitude[OF assms] py_int_int_text[of n] by (simp_all add: py_str_def)

lemma time_field_bound:
  assumes "time_field hi s = Some (v, rest)" "9 \<le> hi"
  shows "v \<le> hi"
  using assms digit_val_le
  by (cases "(hi, s)" rule: time_field.cases) (auto split: if_splits intro: order_trans)

text \<open>What \<open>strptime_hms\<close> returns is a time of day.\<close>

lemma strptime_hms_bounds:
  assumes "strptime_hms s = Inr t"
  shows "0 \<le> t" and "t < us_per_day"
proof -
  obtain h r1 where f1: "time_field 23 s = Some (h, CHR '':'' # r1)"
    using assms
    by (auto simp: strptime_hms_def split: option.splits prod.splits list.splits if_splits)
  obtain m r2 where f2: "time_field 59 r1 = Some (m, CHR '':'' # r2)"
    using assms f1
    by (auto simp: strptime_hms_def split: option.splits prod.splits list.splits if_splits)
  obtain sec where f3: "time_field 61 r2 = Some (sec, [])" and s59: "sec \<le> 59"
    using assms f1 f2
    by (auto simp: strptime_hms_def split: option.splits prod.splits list.splits if_splits)
  have t: "t = (int h * 3600 + int m * 60 + int sec) * us_per_second"
    using assms f1 f2 f3 s59 by (simp add: strptime_hms_def)
  have "h \<le> 23" "m \<le> 59"
    using time_field_bound[OF f1] time_field_bound[OF f2] by simp_all
  then show "0 \<le> t" and "t < us_per_day"
    using s59 by (simp_all add: t us_per_day_def us_per_second_def)
qed

lemma parse_row_bounds:
  assumes "parse_row r = Inr (pm, ps, t)"
  shows "0 \<le> t" and "t < us_per_day"
  using assms strptime_hms_bounds[of "last_time r" t]
  by (auto simp: parse_row_def split: sum.splits)

section \<open>Facts about one row of a refresh\<close>

lemma total_seconds_le_0: "total_seconds d \<le> 0 \<longleftrightarrow> d \<le> 0"
  by (simp add: total_seconds_def double_of_sign divide_le_0_iff)

lemma total_seconds_ge_0: "0 \<le> total_seconds d \<longleftrightarrow> 0 \<le> d"
  by (simp add: total_seconds_def double_of_sign zero_le_divide_iff)

lemma total_seconds_pos: "0 < total_seconds d \<longleftrightarrow> 0 < d"
  by (simp add: total_seconds_def double_of_sign zero_less_divide_iff)

lemma total_seconds_mono: "a \<le> b \<Longrightarrow> total_seconds a \<le> total_seconds b"
  unfolding total_seconds_def by (intro double_of_mono) (simp add: divide_right_mono)

text \<open>A whole number of seconds is its own float.\<close>

lemma total_seconds_whole:
  "\<bar>n\<bar> < 2 ^ 53 \<Longrightarrow> total_seconds (n * us_per_second) = of_int n"
  using double_of_int[of n] by (simp add: total_seconds_def us_per_second_def)

text \<open>
  The comparisons of \<^verbatim>\<open>check_alert_conditions\<close> with 178 and 180 come out on the
  float as they do on the microseconds.
\<close>

lemma total_seconds_ge_178: "178 \<le> total_seconds d \<longleftrightarrow> 178000000 \<le> d"
proof
  assume "178000000 \<le> d"
  then have "total_seconds 178000000 \<le> total_seconds d"
    by (rule total_seconds_mono)
  moreover have "total_seconds 178000000 = 178"
    by (simp add: total_seconds_def double_of_exact)
  ultimately show "178 \<le> total_seconds d"
    by simp
next
  assume h: "178 \<le> total_seconds d"
  show "178000000 \<le> d"
  proof (rule ccontr)
    assume "\<not> 178000000 \<le> d"
    then have "d \<le> 177999999"
      by simp
    then have "total_seconds d \<le> total_seconds 177999999"
      by (rule total_seconds_mono)
    moreover have "total_seconds 177999999 < 178"
      using double_of_below_178 by (simp add: total_seconds_def)
    ultimately show False
      using h by simp
  qed
qed

lemma total_seconds_le_180: "total_seconds d \<le> 180 \<longleftrightarrow> d \<le> 180000000"
proof
  assume "d \<le> 180000000"
  then have "total_seconds d \<le> total_seconds 180000000"
    by (rule total_seconds_mono)
  moreover have "total_seconds 180000000 = 180"
    by (simp add: total_seconds_def double_of_exact)
  ultimately show "total_seconds d \<le> 180"
    by simp
next
  assume h: "total_seconds d \<le> 180"
  show "d \<le> 180000000"
  proof (rule ccontr)
    assume "\<not> d \<le> 180000000"
    then have "180000001 \<le> d"
      by simp
    then have "total_seconds 180000001 \<le> total_seconds d"
      by (rule total_seconds_mono)
    moreover have "180 < total_seconds 180000001"
      using double_of_above_180 by (simp add: total_seconds_def)
    ultimately show False
      using h by simp
  qed
qed


lemma float_progress_start: "0 < t \<Longrightarrow> float_mul (float_sub 1 (float_div t t)) 100 = 0"
  by (simp add: float_mul_def float_sub_def float_div_def double_of_exact)

lemma float_progress_end: "float_mul (float_sub 1 (float_div 0 t)) 100 = 100"
  by (simp add: float_mul_def float_sub_def float_div_def double_of_exact)



text \<open>The anchor has the time of day of the last trigger.\<close>

lemma anchor_time_of_day:
  assumes "anchor now lt = Inr a" "0 \<le> lt" "lt < us_per_day"
  shows "a mod us_per_day = lt"
proof -
  have "a = now div us_per_day * us_per_day + lt
          \<or> a = (now div us_per_day - 1) * us_per_day + lt"
    using assms(1)
    by (auto simp: anchor_def combine_date_def Let_def datetime_add_def algebra_simps
        split: if_splits)
  then show ?thesis
    using assms(2,3) by auto
qed

text \<open>
  The multiplier of the closed form is the one number \<open>k \<ge> 1\<close> for which
  \<open>a + k * period\<close> has reached \<open>now\<close> and, unless \<open>k\<close> is 1, the occurrence
  before it has not.
\<close>

lemma closed_form_multiplier:
  fixes a now period :: int
  assumes "a \<le> now" "0 < period"
  defines "k \<equiv> max 1 ((now - a + period - 1) div period)"
  shows "1 \<le> k" and "now \<le> a + k * period" and "1 < k \<Longrightarrow> a + (k - 1) * period < now"
proof -
  let ?c = "(now - a + period - 1) div period"
  have c2: "?c * period < now - a + period"
    using ceiling_multiple_bounds[OF assms(2), of "now - a"] by simp
  show "1 \<le> k"
    by (simp add: k_def)
  show "now \<le> a + k * period"
    using next_occurrence_closed_bounds(1)[OF assms(1,2)] by (simp add: k_def)
  show "a + (k - 1) * period < now" if "1 < k"
  proof -
    have "k = ?c"
      using that by (simp add: k_def max_def split: if_splits)
    then show ?thesis
      using c2 by (simp add: algebra_simps)
  qed
qed

text \<open>
  What a refresh does for a row whose cells parse and whose period is positive:
  the next occurrence, computed from the last trigger of the row and \<open>now\<close>, goes
  to the display and then to the alert check.  The anchor \<open>a\<close> is the latest
  moment up to \<open>now\<close> with the time of day of the last trigger, the next
  occurrence the first of \<open>a + period\<close>, \<open>a + 2 * period\<close>, and so on, that is
  not before \<open>now\<close>.
\<close>

lemma refresh_row_valid:
  assumes "py_int (minutes (table st ! i)) = Inr pm"
    and "py_int (seconds (table st ! i)) = Inr ps"
    and "strptime_hms (last_time (table st ! i)) = Inr t"
    and "period = (pm * 60 + ps) * us_per_second"
    and "0 < period" "us_per_day \<le> now" "now + period < datetime_limit"
  shows "\<exists>a k. a mod us_per_day = t \<and> a \<le> now \<and> now < a + us_per_day
           \<and> 1 \<le> k \<and> now \<le> a + k * period \<and> (1 < k \<longrightarrow> a + (k - 1) * period < now)
           \<and> next_occurrence t period now = Some (Inr (a + k * period))
           \<and> refresh_row refresh clk now i st =
                check_alert_conditions refresh clk i (a + k * period) now
                  (update_row_display i (a + k * period) period now st)"
proof -
  have p: "parse_row (table st ! i) = Inr (pm, ps, t)"
    using assms(1-3) by (simp add: parse_row_def)
  have tb: "0 \<le> t" "t < us_per_day"
    using strptime_hms_bounds[OF assms(3)] by simp_all
  have v: "now < datetime_limit" "0 \<le> now"
    using assms(5-7) us_per_day_pos by simp_all
  have "period \<le> 3652059 * us_per_day"
    using assms(7) v(2) by (simp add: datetime_limit_def)
  then have "period div us_per_day \<le> 3652059 * us_per_day div us_per_day"
    using us_per_day_pos by (intro zdiv_mono1)
  moreover have "0 \<le> period div us_per_day"
    using assms(5) us_per_day_pos by (simp add: pos_imp_zdiv_nonneg_iff)
  ultimately have d: "timedelta_of pm ps = Inr period"
    using us_per_day_pos by (simp add: timedelta_of_def assms(4)[symmetric] Let_def)
  obtain a where a: "anchor now t = Inr a"
    using anchor_ok[OF tb assms(6) v(1)] by blast
  have ab: "0 \<le> a" "a \<le> now" "now - a < us_per_day"
    using anchor_bounds[OF a tb v(2)] by simp_all
  have am: "a mod us_per_day = t"
    using a tb by (rule anchor_time_of_day)
  define k where "k = max 1 ((now - a + period - 1) div period)"
  have n: "next_occurrence t period now = Some (Inr (a + k * period))"
    unfolding k_def using a ab(1,2) assms(5,7) by (rule next_occurrence_closed)
  have k: "1 \<le> k" "now \<le> a + k * period" "1 < k \<longrightarrow> a + (k - 1) * period < now"
    using closed_form_multiplier[OF ab(2) assms(5)] by (simp_all add: k_def)
  have r: "refresh_row refresh clk now i st =
             check_alert_conditions refresh clk i (a + k * period) now
               (update_row_display i (a + k * period) period now st)"
    using p d n by (simp add: refresh_row_def)
  have "now < a + us_per_day"
    using ab(3) by simp
  then show ?thesis
    using am ab(2) k n r by blast
qed

section \<open>Evaluating the scenarios\<close>

lemma py_int_60: "py_int ''60'' = Inr 60"
  by code_simp

lemma py_int_0: "py_int ''0'' = Inr 0"
  by code_simp

lemma strptime_hms_10: "strptime_hms ''10:00:00'' = Inr (clock_time 0 10 0 0)"
  by code_simp

lemma parse_row_hourly:
  "minutes r = ''60'' \<Longrightarrow> seconds r = ''0'' \<Longrightarrow> last_time r = ''10:00:00'' \<Longrightarrow>
   parse_row r = Inr (60, 0, clock_time 0 10 0 0)"
  by (simp add: parse_row_def py_int_60 py_int_0 strptime_hms_10)

lemma timedelta_of_hour: "timedelta_of 60 0 = Inr (3600 * us_per_second)"
  by code_simp

lemmas scenario_simps =
  refresh_all_timers.simps refresh_body_def refresh_row_def initial_state_def
  boss_row_def parse_row_hourly timedelta_of_hour update_row_display_def
  check_alert_conditions_def trigger_alarm_def update_boss_time_def Let_def
  total_seconds_le_0 total_seconds_ge_178 total_seconds_le_180 total_seconds_pos
  next_occurrence_def anchor_def combine_date_def datetime_add_def advance.simps
  clock_time_def us_per_second_def us_per_day_def datetime_limit_def

lemma digit_char_values:
  "digit_char 0 = CHR ''0''" "digit_char (Suc 0) = CHR ''1''" "digit_char 2 = CHR ''2''"
  "digit_char 3 = CHR ''3''" "digit_char 4 = CHR ''4''" "digit_char 5 = CHR ''5''"
  "digit_char 6 = CHR ''6''" "digit_char 7 = CHR ''7''" "digit_char 8 = CHR ''8''"
  "digit_char 9 = CHR ''9''"
  by code_simp+

lemma strftime_hms_day:
  assumes "0 \<le> x" "x < us_per_day"
  shows "strftime_hms (d * us_per_day + x) = strftime_hms x"
proof -
  have "(d * us_per_day + x) mod us_per_day = x"
    using assms by simp
  moreover have "x mod us_per_day = x"
    using assms by simp
  ultimately show ?thesis
    by (simp add: strftime_hms_def)
qed

lemma strftime_hms_11: "strftime_hms (clock_time d 11 0 0) = ''11:00:00''"
proof -
  have "strftime_hms (clock_time 0 11 0 0) = ''11:00:00''"
    by (simp add: strftime_hms_def clock_time_def us_per_day_def us_per_second_def
        two_digits_def digit_char_values)
  moreover have "clock_time d 11 0 0 = d * us_per_day + clock_time 0 11 0 0"
    by (simp add: clock_time_def)
  moreover have "0 \<le> clock_time 0 11 0 0" "clock_time 0 11 0 0 < us_per_day"
    by (simp_all add: clock_time_def us_per_day_def us_per_second_def)
  ultimately show ?thesis
    by (simp add: strftime_hms_day)
qed

lemma strftime_hms_14: "strftime_hms (clock_time d 14 0 0) = ''14:00:00''"
proof -
  have "strftime_hms (clock_time 0 14 0 0) = ''14:00:00''"
    by (simp add: strftime_hms_def clock_time_def us_per_day_def us_per_second_def
        two_digits_def digit_char_values)
  moreover have "clock_time d 14 0 0 = d * us_per_day + clock_time 0 14 0 0"
    by (simp add: clock_time_def)
  moreover have "0 \<le> clock_time 0 14 0 0" "clock_time 0 14 0 0 < us_per_day"
    by (simp_all add: clock_time_def us_per_day_def us_per_second_def)
  ultimately show ?thesis
    by (simp add: strftime_hms_day)
qed

lemma str_timedelta_3600: "str_timedelta 3600 = ''1:00:00''"
  by (simp add: str_timedelta_def two_digits_def digit_char_values digits_of.simps)

lemma str_timedelta_3300: "str_timedelta 3300 = ''0:55:00''"
  by (simp add: str_timedelta_def two_digits_def digit_char_values digits_of.simps)

text \<open>The next occurrence of the hourly timer at 10:00:00 and at 13:05:00 of any day.\<close>

lemma next_occurrence_hourly:
  assumes "1 \<le> d" "d < 3652058"
  shows "next_occurrence (clock_time 0 10 0 0) (3600 * us_per_second) (clock_time d 10 0 0)
           = Some (Inr (clock_time d 11 0 0))"
    and "next_occurrence (clock_time 0 10 0 0) (3600 * us_per_second) (clock_time d 13 5 0)
           = Some (Inr (clock_time d 14 0 0))"
proof -
  have a: "anchor (clock_time d 10 0 0) (clock_time 0 10 0 0) = Inr (clock_time d 10 0 0)"
    and b: "anchor (clock_time d 13 5 0) (clock_time 0 10 0 0) = Inr (clock_time d 10 0 0)"
    by (simp_all add: anchor_def combine_date_def clock_time_def us_per_day_def
        us_per_second_def)
  have lim: "clock_time d 13 5 0 + 3600 * us_per_second < datetime_limit"
    "clock_time d 10 0 0 + 3600 * us_per_second < datetime_limit"
    "0 \<le> clock_time d 10 0 0"
    using assms by (simp_all add: clock_time_def us_per_day_def us_per_second_def
        datetime_limit_def)
  have "next_occurrence (clock_time 0 10 0 0) (3600 * us_per_second) (clock_time d 10 0 0)
          = Some (Inr (clock_time d 10 0 0
              + max 1 ((clock_time d 10 0 0 - clock_time d 10 0 0 + 3600 * us_per_second - 1)
                       div (3600 * us_per_second)) * (3600 * us_per_second)))"
    using a lim by (intro next_occurrence_closed) (simp_all add: us_per_second_def)
  then show "next_occurrence (clock_time 0 10 0 0) (3600 * us_per_second) (clock_time d 10 0 0)
           = Some (Inr (clock_time d 11 0 0))"
    by (simp add: clock_time_def us_per_second_def)
  have "next_occurrence (clock_time 0 10 0 0) (3600 * us_per_second) (clock_time d 13 5 0)
          = Some (Inr (clock_time d 10 0 0
              + max 1 ((clock_time d 13 5 0 - clock_time d 10 0 0 + 3600 * us_per_second - 1)
                       div (3600 * us_per_second)) * (3600 * us_per_second)))"
    using b lim by (intro next_occurrence_closed)
      (simp_all add: us_per_second_def clock_time_def)
  then show "next_occurrence (clock_time 0 10 0 0) (3600 * us_per_second) (clock_time d 13 5 0)
           = Some (Inr (clock_time d 14 0 0))"
    by (simp add: clock_time_def us_per_second_def)
qed






section \<open>The claims about the display and the alert check\<close>

text \<open>
  Claim C5.  In a refresh at \<open>now\<close>, a row whose cells parse (minutes \<open>pm\<close>,
  seconds \<open>ps\<close>, last trigger \<open>t\<close>) and whose period is positive gets its next
  occurrence computed from its last trigger: with \<open>a\<close> the latest moment up to
  \<open>now\<close> that has the time of day \<open>t\<close>, it is the first of \<open>a + period\<close>,
  \<open>a + 2 * period\<close>, and so on, that is not before \<open>now\<close>.  The display is
  updated with that value and then \<^verbatim>\<open>check_alert_conditions\<close> is called with it,
  in the same refresh.  So the remaining time is not negative when the check
  runs, and the condition \<open>remaining \<le> 0\<close> of the alarm can hold only if the next
  occurrence is \<open>now\<close> itself.
\<close>

theorem refresh_row_remaining_nonnegative:
  assumes "py_int (minutes (table st ! i)) = Inr pm"
    and "py_int (seconds (table st ! i)) = Inr ps"
    and "strptime_hms (last_time (table st ! i)) = Inr t"
    and "period = (pm * 60 + ps) * us_per_second"
    and "0 < period" "us_per_day \<le> now" "now + period < datetime_limit"
  shows "\<exists>a k. a mod us_per_day = t \<and> a \<le> now \<and> now < a + us_per_day
           \<and> 1 \<le> k \<and> now \<le> a + k * period \<and> (1 < k \<longrightarrow> a + (k - 1) * period < now)
           \<and> next_occurrence t period now = Some (Inr (a + k * period))
           \<and> refresh_row refresh clk now i st =
                check_alert_conditions refresh clk i (a + k * period) now
                  (update_row_display i (a + k * period) period now st)
           \<and> 0 \<le> total_seconds (a + k * period - now)
           \<and> (total_seconds (a + k * period - now) \<le> 0 \<longrightarrow> a + k * period = now)"
proof -
  obtain a k where c: "a mod us_per_day = t" "a \<le> now" "now < a + us_per_day"
    "1 \<le> k" "now \<le> a + k * period" "1 < k \<longrightarrow> a + (k - 1) * period < now"
    and n: "next_occurrence t period now = Some (Inr (a + k * period))"
    and r: "refresh_row refresh clk now i st =
              check_alert_conditions refresh clk i (a + k * period) now
                (update_row_display i (a + k * period) period now st)"
    using refresh_row_valid[OF assms, of refresh clk] by blast
  have "0 \<le> total_seconds (a + k * period - now)"
    using c(5) by (simp add: total_seconds_ge_0)
  moreover have "total_seconds (a + k * period - now) \<le> 0 \<longrightarrow> a + k * period = now"
    using c(5) by (simp add: total_seconds_le_0)
  ultimately show ?thesis
    using c n r by blast
qed

text \<open>
  The hourly timer with a last trigger of 10:00:00, refreshed at 13:05:00: the
  next occurrence is 14:00:00, 3300 seconds remain, and the check does nothing.
\<close>

theorem refresh_row_remaining_nonnegative_witness:
  "next_occurrence (clock_time 0 10 0 0) (3600 * us_per_second) (clock_time 738885 13 5 0)
     = Some (Inr (clock_time 738885 14 0 0))
   \<and> refresh_row Returned (\<lambda>k. 0) (clock_time 738885 13 5 0) 0
        (initial_state\<lparr>table := [boss_row ''boss'' ''60'' ''0'' ''10:00:00'' True]\<rparr>)
     = Returned (update_row_display 0 (clock_time 738885 14 0 0) (3600 * us_per_second)
         (clock_time 738885 13 5 0)
         (initial_state\<lparr>table := [boss_row ''boss'' ''60'' ''0'' ''10:00:00'' True]\<rparr>))
   \<and> total_seconds (clock_time 738885 14 0 0 - clock_time 738885 13 5 0) = 3300"
proof -
  let ?st = "initial_state\<lparr>table := [boss_row ''boss'' ''60'' ''0'' ''10:00:00'' True]\<rparr>"
  let ?now = "clock_time 738885 13 5 0"
  let ?p = "3600 * us_per_second"
  have cells: "py_int (minutes (table ?st ! 0)) = Inr 60"
    "py_int (seconds (table ?st ! 0)) = Inr 0"
    "strptime_hms (last_time (table ?st ! 0)) = Inr (clock_time 0 10 0 0)"
    by (simp_all add: initial_state_def boss_row_def py_int_60 py_int_0 strptime_hms_10)
  have "\<exists>a k. a mod us_per_day = clock_time 0 10 0 0 \<and> a \<le> ?now \<and> ?now < a + us_per_day
           \<and> 1 \<le> k \<and> ?now \<le> a + k * ?p \<and> (1 < k \<longrightarrow> a + (k - 1) * ?p < ?now)
           \<and> next_occurrence (clock_time 0 10 0 0) ?p ?now = Some (Inr (a + k * ?p))
           \<and> refresh_row Returned (\<lambda>k. 0) ?now 0 ?st =
                check_alert_conditions Returned (\<lambda>k. 0) 0 (a + k * ?p) ?now
                  (update_row_display 0 (a + k * ?p) ?p ?now ?st)
           \<and> 0 \<le> total_seconds (a + k * ?p - ?now)
           \<and> (total_seconds (a + k * ?p - ?now) \<le> 0 \<longrightarrow> a + k * ?p = ?now)"
    by (rule refresh_row_remaining_nonnegative[OF cells])
       (simp_all add: clock_time_def us_per_second_def us_per_day_def datetime_limit_def)
  then obtain a k where
    n: "next_occurrence (clock_time 0 10 0 0) ?p ?now = Some (Inr (a + k * ?p))"
    and r: "refresh_row Returned (\<lambda>k. 0) ?now 0 ?st =
              check_alert_conditions Returned (\<lambda>k. 0) 0 (a + k * ?p) ?now
                (update_row_display 0 (a + k * ?p) ?p ?now ?st)"
    by blast
  have e: "next_occurrence (clock_time 0 10 0 0) ?p ?now
             = Some (Inr (clock_time 738885 14 0 0))"
    by (rule next_occurrence_hourly(2)) simp_all
  have nt: "a + k * ?p = clock_time 738885 14 0 0"
    using n e by simp
  have d: "clock_time 738885 14 0 0 - ?now = 3300 * us_per_second"
    by (simp add: clock_time_def)
  have rem: "total_seconds (clock_time 738885 14 0 0 - ?now) = 3300"
    unfolding d using total_seconds_whole[of 3300] by simp
  have "check_alert_conditions Returned (\<lambda>k. 0) 0 (clock_time 738885 14 0 0) ?now
          (update_row_display 0 (clock_time 738885 14 0 0) ?p ?now ?st)
        = Returned (update_row_display 0 (clock_time 738885 14 0 0) ?p ?now ?st)"
    by (simp add: check_alert_conditions_def Let_def rem)
  then show ?thesis
    using e r rem unfolding nt by simp
qed



section \<open>The claims about the scenarios and the pre-warning\<close>

text \<open>
  Claim C8.  An enabled row with a period of 60 minutes and 0 seconds and a last
  trigger of 10:00:00, on any day \<open>d\<close> of the calendar but the first and the
  last.  Refreshed at 10:00:00 the next occurrence is 11:00:00, 3600 seconds
  remain (shown as 1:00:00) and the progress is 0 percent; refreshed at 13:05:00
  the next occurrence is 14:00:00 and 3300 seconds remain (shown as 0:55:00).
\<close>

theorem scenario_hourly_timer:
  assumes "1 \<le> d" "d < 3652058"
  shows "next_occurrence (clock_time 0 10 0 0) (3600 * us_per_second) (clock_time d 10 0 0)
           = Some (Inr (clock_time d 11 0 0))
       \<and> total_seconds (clock_time d 11 0 0 - clock_time d 10 0 0) = 3600
       \<and> map_option
            (\<lambda>s. (next_cell (table s ! 0), remaining_cell (table s ! 0), progress (table s ! 0)))
            (returned (refresh_all_timers (\<lambda>k. clock_time d 10 0 0)
              (initial_state\<lparr>table := [boss_row ''boss'' ''60'' ''0'' ''10:00:00'' True]\<rparr>)))
           = Some (''11:00:00'', ''1:00:00'', Some 0)
       \<and> next_occurrence (clock_time 0 10 0 0) (3600 * us_per_second) (clock_time d 13 5 0)
           = Some (Inr (clock_time d 14 0 0))
       \<and> total_seconds (clock_time d 14 0 0 - clock_time d 13 5 0) = 3300
       \<and> map_option (\<lambda>s. (next_cell (table s ! 0), remaining_cell (table s ! 0)))
            (returned (refresh_all_timers (\<lambda>k. clock_time d 13 5 0)
              (initial_state\<lparr>table := [boss_row ''boss'' ''60'' ''0'' ''10:00:00'' True]\<rparr>)))
           = Some (''14:00:00'', ''0:55:00'')"
proof -
  note n = next_occurrence_hourly[OF assms]
  have d1: "clock_time d 11 0 0 - clock_time d 10 0 0 = 3600 * us_per_second"
    and d2: "clock_time d 14 0 0 - clock_time d 13 5 0 = 3300 * us_per_second"
    by (simp_all add: clock_time_def)
  have r1: "total_seconds (clock_time d 11 0 0 - clock_time d 10 0 0) = 3600"
    unfolding d1 using total_seconds_whole[of 3600] by simp
  have r2: "total_seconds (clock_time d 14 0 0 - clock_time d 13 5 0) = 3300"
    unfolding d2 using total_seconds_whole[of 3300] by simp
  have tp: "total_seconds (3600 * us_per_second) = 3600"
    using total_seconds_whole[of 3600] by simp
  have s1: "map_option
            (\<lambda>s. (next_cell (table s ! 0), remaining_cell (table s ! 0), progress (table s ! 0)))
            (returned (refresh_all_timers (\<lambda>k. clock_time d 10 0 0)
              (initial_state\<lparr>table := [boss_row ''boss'' ''60'' ''0'' ''10:00:00'' True]\<rparr>)))
           = Some (''11:00:00'', ''1:00:00'', Some 0)"
    by (simp add: refresh_all_timers.simps refresh_body_def refresh_row_def initial_state_def
        boss_row_def parse_row_hourly timedelta_of_hour n update_row_display_def
        check_alert_conditions_def Let_def r1 tp strftime_hms_11 str_timedelta_3600 trunc_def
        float_progress_start)
  have s2: "map_option (\<lambda>s. (next_cell (table s ! 0), remaining_cell (table s ! 0)))
            (returned (refresh_all_timers (\<lambda>k. clock_time d 13 5 0)
              (initial_state\<lparr>table := [boss_row ''boss'' ''60'' ''0'' ''10:00:00'' True]\<rparr>)))
           = Some (''14:00:00'', ''0:55:00'')"
    by (simp add: refresh_all_timers.simps refresh_body_def refresh_row_def initial_state_def
        boss_row_def parse_row_hourly timedelta_of_hour n update_row_display_def
        check_alert_conditions_def Let_def r2 tp strftime_hms_14 str_timedelta_3300 trunc_def)
  show ?thesis
    using n r1 r2 s1 s2 by (intro conjI)
qed

theorem scenario_hourly_timer_witness:
  "map_option
     (\<lambda>s. (next_cell (table s ! 0), remaining_cell (table s ! 0), progress (table s ! 0)))
     (returned (refresh_all_timers (\<lambda>k. clock_time 738885 10 0 0)
       (initial_state\<lparr>table := [boss_row ''boss'' ''60'' ''0'' ''10:00:00'' True]\<rparr>)))
    = Some (''11:00:00'', ''1:00:00'', Some 0)
   \<and> map_option (\<lambda>s. (next_cell (table s ! 0), remaining_cell (table s ! 0)))
       (returned (refresh_all_timers (\<lambda>k. clock_time 738885 13 5 0)
         (initial_state\<lparr>table := [boss_row ''boss'' ''60'' ''0'' ''10:00:00'' True]\<rparr>)))
      = Some (''14:00:00'', ''0:55:00'')"
  using scenario_hourly_timer[of 738885] by (simp del: map_option_eq_Some)

text \<open>
  Claim C7.  \<^verbatim>\<open>check_alert_conditions\<close> on row \<open>i\<close>: when the check box of the row is
  not ticked nothing happens, whatever the remaining time; when it is ticked and
  \<open>178 \<le> remaining \<le> 180\<close> the pre-warning is raised, and nothing else; when it
  is ticked and the remaining time is outside that window no pre-warning is
  raised (what is left is the alarm, or nothing).
\<close>

theorem check_alert_conditions_prewarning:
  "(\<not> enabled (table st ! i) \<longrightarrow>
      check_alert_conditions refresh clk i next_time now st = Returned st)
   \<and> (enabled (table st ! i) \<and> 178 \<le> total_seconds (next_time - now)
        \<and> total_seconds (next_time - now) \<le> 180 \<longrightarrow>
      check_alert_conditions refresh clk i next_time now st
        = Returned (st\<lparr>events := events st @ [PreWarning i]\<rparr>))
   \<and> (enabled (table st ! i) \<and> \<not> (178 \<le> total_seconds (next_time - now)
        \<and> total_seconds (next_time - now) \<le> 180) \<longrightarrow>
      check_alert_conditions refresh clk i next_time now st
        = (if total_seconds (next_time - now) \<le> 0 \<and> \<not> ringing st
           then trigger_alarm refresh clk i next_time st else Returned st))"
  by (auto simp: check_alert_conditions_def Let_def)

theorem check_alert_conditions_prewarning_witness:
  "check_alert_conditions Returned (\<lambda>k. 0) 0 0 0
     (initial_state\<lparr>table := [boss_row ''boss'' ''60'' ''0'' ''10:00:00'' False]\<rparr>)
     = Returned (initial_state\<lparr>table := [boss_row ''boss'' ''60'' ''0'' ''10:00:00'' False]\<rparr>)
   \<and> check_alert_conditions Returned (\<lambda>k. 0) 0 179000000 0
     (initial_state\<lparr>table := [boss_row ''boss'' ''60'' ''0'' ''10:00:00'' True]\<rparr>)
     = Returned (initial_state\<lparr>table := [boss_row ''boss'' ''60'' ''0'' ''10:00:00'' True],
                               events := [PreWarning 0]\<rparr>)
   \<and> check_alert_conditions Returned (\<lambda>k. 0) 0 181000000 0
     (initial_state\<lparr>table := [boss_row ''boss'' ''60'' ''0'' ''10:00:00'' True]\<rparr>)
     = Returned (initial_state\<lparr>table := [boss_row ''boss'' ''60'' ''0'' ''10:00:00'' True]\<rparr>)"
proof -
  let ?off = "initial_state\<lparr>table := [boss_row ''boss'' ''60'' ''0'' ''10:00:00'' False]\<rparr>"
  let ?on = "initial_state\<lparr>table := [boss_row ''boss'' ''60'' ''0'' ''10:00:00'' True]\<rparr>"
  have off: "\<not> enabled (table ?off ! 0)" and on: "enabled (table ?on ! 0)"
    by (simp_all add: initial_state_def boss_row_def)
  have in_window: "178 \<le> total_seconds (179000000 - 0)"
    "total_seconds (179000000 - 0) \<le> 180"
    and outside: "\<not> (178 \<le> total_seconds (181000000 - 0)
                     \<and> total_seconds (181000000 - 0) \<le> 180)"
    "\<not> total_seconds (181000000 - 0) \<le> 0"
    by (simp_all add: total_seconds_ge_178 total_seconds_le_180 total_seconds_le_0)
  show ?thesis
    using check_alert_conditions_prewarning[of ?off 0 Returned "\<lambda>k. 0" 0 0]
      check_alert_conditions_prewarning[of ?on 0 Returned "\<lambda>k. 0" 179000000 0]
      check_alert_conditions_prewarning[of ?on 0 Returned "\<lambda>k. 0" 181000000 0]
      off on in_window outside
    by (simp add: initial_state_def)
qed

text \<open>
  Claim C10, as amended.  The pre-warning of \<^verbatim>\<open>check_alert_conditions\<close> does not
  look at \<^verbatim>\<open>self.ringing\<close> and leaves nothing behind that would stop it from
  firing again: whenever the row is enabled and \<open>178 \<le> remaining \<le> 180\<close>, whatever
  the flag \<open>b\<close>, the banner and the warning sound are raised and the state is
  otherwise unchanged.  Four ticks one second apart, from 180 seconds before the
  next occurrence, raise it three times for the same row.
\<close>

theorem prewarning_fires_on_every_check_in_window:
  "(enabled (table st ! i) \<and> 178 \<le> total_seconds (next_time - now)
      \<and> total_seconds (next_time - now) \<le> 180 \<longrightarrow>
      check_alert_conditions refresh clk i next_time now (st\<lparr>ringing := b\<rparr>)
        = Returned (st\<lparr>ringing := b, events := events st @ [PreWarning i]\<rparr>))
   \<and> map_option events
        (returned (run (\<lambda>k. clock_time 738885 10 57 (int k)) [Tick, Tick, Tick, Tick]
          (initial_state\<lparr>table := [boss_row ''boss'' ''60'' ''0'' ''10:00:00'' True]\<rparr>)))
       = Some [PreWarning 0, PreWarning 0, PreWarning 0]"
proof -
  have a: "enabled (table st ! i) \<and> 178 \<le> total_seconds (next_time - now)
      \<and> total_seconds (next_time - now) \<le> 180 \<longrightarrow>
      check_alert_conditions refresh clk i next_time now (st\<lparr>ringing := b\<rparr>)
        = Returned (st\<lparr>ringing := b, events := events st @ [PreWarning i]\<rparr>)"
    by (auto simp: check_alert_conditions_def Let_def)
  have b: "map_option events
        (returned (run (\<lambda>k. clock_time 738885 10 57 (int k)) [Tick, Tick, Tick, Tick]
          (initial_state\<lparr>table := [boss_row ''boss'' ''60'' ''0'' ''10:00:00'' True]\<rparr>)))
       = Some [PreWarning 0, PreWarning 0, PreWarning 0]"
    by (simp add: scenario_simps)
  show ?thesis
    using a b by (intro conjI)
qed

theorem prewarning_fires_on_every_check_in_window_witness:
  "check_alert_conditions Returned (\<lambda>k. 0) 0 179000000 0
     (initial_state\<lparr>table := [boss_row ''boss'' ''60'' ''0'' ''10:00:00'' True],
                     ringing := True\<rparr>)
     = Returned (initial_state\<lparr>table := [boss_row ''boss'' ''60'' ''0'' ''10:00:00'' True],
                               ringing := True, events := [PreWarning 0]\<rparr>)"
proof -
  let ?on = "initial_state\<lparr>table := [boss_row ''boss'' ''60'' ''0'' ''10:00:00'' True]\<rparr>"
  have on: "enabled (table ?on ! 0)"
    by (simp add: initial_state_def boss_row_def)
  have in_window: "178 \<le> total_seconds (179000000 - 0)"
    "total_seconds (179000000 - 0) \<le> 180"
    by (simp_all add: total_seconds_ge_178 total_seconds_le_180)
  show ?thesis
    using prewarning_fires_on_every_check_in_window
      [of ?on 0 179000000 0 Returned "\<lambda>k. 0" True]
      on in_window
    by (simp add: initial_state_def)
qed

text \<open>
  Three is not a bound.  Two enabled rows in automatic mode, both with a period
  of one hour: row 0 with a last trigger of 10:00:00, row 1 with 10:03:00.  The
  first tick falls on 11:00:00 sharp, when row 0 is due and 180 seconds remain
  for row 1: the alarm of row 0 writes the new last trigger and refreshes the
  whole table from within \<^verbatim>\<open>trigger_alarm\<close>, which warns for row 1, and then the
  outer refresh comes to row 1 and warns again.  With the ticks one and two
  seconds later that makes four pre-warnings for row 1 in one cycle.  (The
  clock is read three times in the first tick, one millisecond apart.)
\<close>

theorem prewarning_four_times_counterexample:
  "map_option events
     (returned (run
       (\<lambda>k. clock_time 738885 11 0 0
               + (if k < 3 then int k * 1000 else (int k - 2) * us_per_second))
       [Tick, Tick, Tick, Tick]
       (initial_state\<lparr>table := [boss_row ''A'' ''60'' ''0'' ''10:00:00'' True,
                                  boss_row ''B'' ''60'' ''0'' ''10:03:00'' True]\<rparr>)))
   = Some [Due 0 (clock_time 738885 11 0 0),
           PreWarning 1, PreWarning 1, PreWarning 1, PreWarning 1]"
  by (simp add: scenario_simps strftime_hms_def two_digits_def
      digit_char_values strptime_hms_def is_digit_def digit_val_def parse_row_def
      py_int_60 py_int_0)

section \<open>The claim about the configuration file\<close>

subsection \<open>What was dumped is what is loaded\<close>

lemma hex_val_hex_digit: "k < 16 \<Longrightarrow> hex_val (hex_digit k) = Some k"
  by (auto simp: hex_val_def hex_digit_def Let_def)

lemma hex4_escape:
  assumes "n < 32"
  shows "hex4 (CHR ''0'' # CHR ''0'' # hex_digit (n div 16) # hex_digit (n mod 16) # rest)
           = Some (n, rest)"
proof -
  have "n div 16 < 16" "n mod 16 < 16"
    using assms by simp_all
  then have "hex_val (hex_digit (n div 16)) = Some (n div 16)"
    "hex_val (hex_digit (n mod 16)) = Some (n mod 16)"
    by (simp_all only: hex_val_hex_digit)
  moreover have "hex_val CHR ''0'' = Some 0"
    by (simp add: hex_val_def)
  ultimately show ?thesis
    by (simp add: hex4_def)
qed

lemma unescape_escape_char:
  "unescape (escape_char c @ rest) = map_option (\<lambda>(s, t). (c # s, t)) (unescape rest)"
proof -
  consider (short) "c \<in> {CHR 0x22, CHR 0x5C, CHR 0x0A, CHR 0x0D, CHR 0x09, CHR 0x08, CHR 0x0C}"
    | (control) "c \<notin> {CHR 0x22, CHR 0x5C, CHR 0x0A, CHR 0x0D, CHR 0x09, CHR 0x08, CHR 0x0C}"
        "(of_char c :: nat) < 32"
    | (plain) "c \<notin> {CHR 0x22, CHR 0x5C, CHR 0x0A, CHR 0x0D, CHR 0x09, CHR 0x08, CHR 0x0C}"
        "\<not> (of_char c :: nat) < 32"
    by blast
  then show ?thesis
  proof cases
    case short
    then show ?thesis
      by (auto simp: escape_char_def simple_escape_def)
  next
    case control
    have u: "unicode_escape (CHR ''0'' # CHR ''0'' # hex_digit ((of_char c :: nat) div 16)
               # hex_digit ((of_char c :: nat) mod 16) # rest) = Some ([c], rest)"
      using control(2) by (simp add: unicode_escape_def hex4_escape utf8_def)
    have e: "escape_char c = [CHR 0x5C, CHR ''u'', CHR ''0'', CHR ''0'',
               hex_digit ((of_char c :: nat) div 16), hex_digit ((of_char c :: nat) mod 16)]"
      using control by (simp add: escape_char_def)
    show ?thesis
      unfolding e by (simp add: u)
  next
    case plain
    then show ?thesis
      by (simp add: escape_char_def)
  qed
qed

lemma unescape_escape:
  "unescape (concat (map escape_char s) @ CHR 0x22 # rest) = Some (s, rest)"
  by (induction s) (simp_all add: unescape_escape_char)

lemma parse_scalar_string:
  "parse_scalar (json_string s @ rest) = Some (JString s, rest)"
  by (simp add: parse_scalar_def json_string_def unescape_escape)

lemma ends_value_facts:
  assumes "ends_value rest"
  shows "\<not> is_digit (hd rest)" and "\<not> is_fraction rest" and "rest \<noteq> []"
  using assms by (auto simp: ends_value_def is_digit_def is_fraction_def split: list.splits)

lemma digits_of_zero: "digits_of 0 = ''0''"
  by (subst digits_of.simps) (simp add: digit_char_values)

lemma digits_of_hd: "0 < n \<Longrightarrow> hd (digits_of n) \<noteq> CHR ''0''"
proof (induction n rule: digits_of.induct)
  case (1 n)
  show ?case
  proof (cases "n < 10")
    case True
    have "(of_char (digit_char n) :: nat) = 48 + n"
      using True by (rule digit_char_code)
    then have "digit_char n \<noteq> CHR ''0''"
      using "1.prems" by auto
    then show ?thesis
      using True by (subst digits_of.simps) simp
  next
    case False
    then have "hd (digits_of (n div 10)) \<noteq> CHR ''0''"
      by (intro "1.IH") simp_all
    then show ?thesis
      using False digits_of_nonempty[of "n div 10"] by (subst digits_of.simps) simp
  qed
qed

lemma takeWhile_digits:
  assumes "\<forall>c \<in> set ds. is_digit c" "rest = [] \<or> \<not> is_digit (hd rest)"
  shows "takeWhile is_digit (ds @ rest) = ds"
proof -
  have "takeWhile is_digit rest = []"
    using assms(2) by (cases rest) auto
  then show ?thesis
    using assms(1) by (simp add: takeWhile_append2)
qed

lemma digits_of_hd_digit: "is_digit (hd (digits_of m))" "hd (digits_of m) \<noteq> CHR ''-''"
proof -
  have "hd (digits_of m) \<in> set (digits_of m)"
    using digits_of_nonempty by simp
  then show "is_digit (hd (digits_of m))"
    by (rule digits_of_digits)
  then show "hd (digits_of m) \<noteq> CHR ''-''"
    using digit_not_sign by blast
qed

lemma parse_int_digits:
  assumes "length (digits_of m) \<le> max_str_digits" "ends_value rest"
  shows "parse_int (digits_of m @ rest) = Some (int m, rest)"
proof (cases "m = 0")
  case True
  have "0 < max_str_digits"
    by (simp add: max_str_digits_def)
  then show ?thesis
    using True ends_value_facts(2)[OF assms(2)]
    by (simp add: digits_of_zero parse_int_def Let_def is_digit_def digit_val_def)
next
  case False
  have d: "\<forall>c \<in> set (digits_of m). is_digit c"
    using digits_of_digits by blast
  have ne: "digits_of m \<noteq> []"
    by (rule digits_of_nonempty)
  have h: "hd (digits_of m @ rest) = hd (digits_of m)"
    using ne by simp
  have h0: "hd (digits_of m) \<noteq> CHR ''0''"
    using False by (intro digits_of_hd) simp
  have tw: "takeWhile is_digit (digits_of m @ rest) = digits_of m"
    using takeWhile_digits[OF d, of rest] ends_value_facts(1)[OF assms(2)] by simp
  show ?thesis
    unfolding parse_int_def Let_def h
    using ne h0 digits_of_hd_digit(2)[of m] assms(1) ends_value_facts(2)[OF assms(2)]
      int_digits_digits_of[of 0 m]
    by (simp add: tw)
qed

lemma parse_int_int_text:
  assumes "length (digits_of (nat \<bar>n\<bar>)) \<le> max_str_digits" "ends_value rest"
  shows "parse_int (int_text n @ rest) = Some (n, rest)"
proof (cases "n < 0")
  case True
  then have a: "nat \<bar>n\<bar> = nat (- n)"
    by simp
  have "parse_int (digits_of (nat (- n)) @ rest) = Some (int (nat (- n)), rest)"
    using assms unfolding a by (rule parse_int_digits)
  moreover have "parse_int (CHR ''-'' # digits_of (nat (- n)) @ rest)
                   = map_option (\<lambda>(v, r). (- v, r)) (parse_int (digits_of (nat (- n)) @ rest))"
  proof -
    have nm: "hd (digits_of (nat (- n))) \<noteq> CHR ''-''" "digits_of (nat (- n)) \<noteq> []"
      using digits_of_hd_digit(2) digits_of_nonempty by simp_all
    then show ?thesis
      by (auto simp: parse_int_def Let_def split: option.splits)
  qed
  ultimately show ?thesis
    using True by (simp add: int_text_def)
next
  case False
  then have a: "nat \<bar>n\<bar> = nat n"
    by simp
  have "parse_int (digits_of (nat n) @ rest) = Some (int (nat n), rest)"
    using assms unfolding a by (rule parse_int_digits)
  then show ?thesis
    using False by (simp add: int_text_def)
qed

lemma int_text_hd: "int_text n \<noteq> [] \<and> (hd (int_text n) = CHR ''-'' \<or> is_digit (hd (int_text n)))"
  using digits_of_nonempty digits_of_hd_digit(1) by (simp add: int_text_def)

lemma parse_scalar_value:
  assumes "json_ok v" "ends_value rest"
  shows "parse_scalar (json_value v @ rest) = Some (v, rest)"
proof (cases v)
  case (JString s)
  then show ?thesis
    by (simp add: parse_scalar_string)
next
  case (JInt n)
  obtain c cs where t: "int_text n = c # cs" and c: "c = CHR ''-'' \<or> is_digit c"
    using int_text_hd[of n] by (cases "int_text n") auto
  have "c \<noteq> CHR 0x22" "c \<noteq> CHR ''n''" "c \<noteq> CHR ''t''" "c \<noteq> CHR ''f''"
    using c by (auto simp: is_digit_def)
  moreover have "parse_int (c # cs @ rest) = Some (n, rest)"
    using parse_int_int_text[of n rest] assms JInt t by simp
  ultimately show ?thesis
    using JInt t by (simp add: parse_scalar_def)
next
  case (JBool b)
  then show ?thesis
    by (simp add: parse_scalar_def)
next
  case JNull
  then show ?thesis
    by (simp add: parse_scalar_def)
qed

lemma json_value_hd: "json_value v \<noteq> [] \<and> \<not> is_json_space (hd (json_value v))"
proof (cases v)
  case (JInt n)
  then show ?thesis
    using int_text_hd[of n] by (auto simp: is_json_space_def is_digit_def)
qed (simp_all add: json_string_def is_json_space_def)

lemma skip_space_id: "s = [] \<or> \<not> is_json_space (hd s) \<Longrightarrow> skip_space s = s"
  by (cases s) (simp_all add: skip_space_def)

lemma skip_space_indent:
  assumes "s = [] \<or> \<not> is_json_space (hd s)" "\<forall>c \<in> set w. is_json_space c"
  shows "skip_space (w @ s) = s"
  using assms skip_space_id[of s] by (simp add: skip_space_def dropWhile_append2)

lemma parse_members_step:
  assumes "json_ok v" "ends_value tail"
  shows "parse_members (json_member (k, v) @ tail) =
           (case skip_space tail of
              [] \<Rightarrow> None
            | c4 # s5 \<Rightarrow>
                if c4 = CHR ''}'' then Some ([(k, v)], s5)
                else if c4 = CHR '','' then
                  map_option (\<lambda>(ms, r). ((k, v) # ms, r)) (parse_members (skip_space s5))
                else None)"
proof -
  let ?s1 = "concat (map escape_char k) @ CHR 0x22 # CHR '':'' # CHR '' '' # json_value v @ tail"
  have s: "json_member (k, v) @ tail = CHR 0x22 # ?s1"
    by (simp add: json_member_def json_string_def)
  have u: "unescape ?s1 = Some (k, CHR '':'' # CHR '' '' # json_value v @ tail)"
    by (rule unescape_escape)
  have k2: "skip_space (CHR '':'' # CHR '' '' # json_value v @ tail)
              = CHR '':'' # CHR '' '' # json_value v @ tail"
    by (rule skip_space_id) (simp add: is_json_space_def)
  have "skip_space ([CHR '' ''] @ (json_value v @ tail)) = json_value v @ tail"
    using json_value_hd[of v] by (intro skip_space_indent) (simp_all add: is_json_space_def)
  then have k3: "skip_space (CHR '' '' # json_value v @ tail) = json_value v @ tail"
    by simp
  have p: "parse_scalar (json_value v @ tail) = Some (v, tail)"
    using assms by (rule parse_scalar_value)
  show ?thesis
    unfolding s by (subst parse_members.simps) (simp add: u k2 k3 p)
qed

lemma json_member_hd: "json_member m \<noteq> [] \<and> hd (json_member m) = CHR 0x22"
  by (simp add: json_member_def json_string_def)

lemma join_members_hd:
  "ms \<noteq> [] \<Longrightarrow> join sep (map json_member ms) \<noteq> [] \<and> hd (join sep (map json_member ms)) = CHR 0x22"
proof (induction ms rule: induct_list012)
  case 1
  then show ?case by simp
next
  case (2 m)
  then show ?case using json_member_hd[of m] by simp
next
  case (3 m m' ms)
  then show ?case using json_member_hd[of m] by simp
qed

lemma skip_space_Cons:
  "skip_space (c # s) = (if is_json_space c then skip_space s else c # s)"
  by (simp add: skip_space_def)

lemmas skip_space_eval = skip_space_Cons is_json_space_def

lemma parse_members_dump:
  assumes "\<forall>m \<in> set (m0 # ms). json_ok (snd m)"
  shows "parse_members (join member_sep (map json_member (m0 # ms))
                          @ CHR 0x0A # ''  }'' @ rest) = Some (m0 # ms, rest)"
  using assms
proof (induction ms arbitrary: m0)
  case Nil
  obtain k v where m0: "m0 = (k, v)"
    by (cases m0)
  have ok: "json_ok v"
    using Nil m0 by simp
  let ?tail = "CHR 0x0A # CHR '' '' # CHR '' '' # CHR ''}'' # rest"
  have e: "ends_value ?tail"
    by (simp add: ends_value_def)
  have t: "join member_sep (map json_member [m0]) @ CHR 0x0A # ''  }'' @ rest
             = json_member (k, v) @ ?tail"
    by (simp add: m0)
  show ?case
    unfolding t using parse_members_step[OF ok e, of k] by (simp add: skip_space_eval m0)
next
  case (Cons m1 ms)
  obtain k v where m0: "m0 = (k, v)"
    by (cases m0)
  have ok: "json_ok v"
    using Cons.prems m0 by simp
  let ?next = "join member_sep (map json_member (m1 # ms)) @ CHR 0x0A # ''  }'' @ rest"
  have ih: "parse_members ?next = Some (m1 # ms, rest)"
    using Cons.prems by (intro Cons.IH) simp
  have "?next \<noteq> [] \<and> hd ?next = CHR 0x22"
    using join_members_hd[of "m1 # ms" member_sep] by simp
  then obtain cs where nx: "?next = CHR 0x22 # cs"
    by (cases ?next) auto
  let ?tail = "CHR '','' # CHR 0x0A # CHR '' '' # CHR '' '' # CHR '' '' # CHR '' ''
                 # CHR 0x22 # cs"
  have e: "ends_value ?tail"
    by (simp add: ends_value_def)
  have "join member_sep (map json_member (m0 # m1 # ms)) @ CHR 0x0A # ''  }'' @ rest
          = json_member (k, v) @ member_sep @ ?next"
    by (simp add: m0)
  then have t: "join member_sep (map json_member (m0 # m1 # ms)) @ CHR 0x0A # ''  }'' @ rest
                  = json_member (k, v) @ ?tail"
    unfolding nx by (simp add: member_sep_def)
  show ?case
    unfolding t using parse_members_step[OF ok e, of k] ih[unfolded nx]
    by (simp add: skip_space_eval m0)
qed

lemma parse_object_dump:
  assumes "\<forall>m \<in> set item. json_ok (snd m)"
  shows "parse_object (json_object_text item @ rest) = Some (item, rest)"
proof (cases item)
  case Nil
  then show ?thesis
    by (simp add: json_object_text_def parse_object_def skip_space_eval)
next
  case (Cons m0 ms)
  let ?body = "join member_sep (map json_member (m0 # ms)) @ CHR 0x0A # ''  }'' @ rest"
  have p: "parse_members ?body = Some (m0 # ms, rest)"
    using assms Cons by (intro parse_members_dump) simp
  have "?body \<noteq> [] \<and> hd ?body = CHR 0x22"
    using join_members_hd[of "m0 # ms" member_sep] by simp
  then obtain cs where b: "?body = CHR 0x22 # cs"
    by (cases ?body) auto
  have "json_object_text item @ rest = CHR ''{'' # [CHR 0x0A] @ ''    '' @ ?body"
    using Cons by (simp add: json_object_text_def member_sep_def)
  then have t: "json_object_text item @ rest
                  = CHR ''{'' # CHR 0x0A # CHR '' '' # CHR '' '' # CHR '' '' # CHR '' ''
                      # CHR 0x22 # cs"
    unfolding b by simp
  show ?thesis
    unfolding t parse_object_def using p[unfolded b] Cons by (simp add: skip_space_eval)
qed

lemma json_object_text_hd:
  "json_object_text item \<noteq> [] \<and> hd (json_object_text item) = CHR ''{''"
  by (simp add: json_object_text_def)

lemma join_objects_hd:
  "items \<noteq> [] \<Longrightarrow> join sep (map json_object_text items) \<noteq> []
     \<and> hd (join sep (map json_object_text items)) = CHR ''{''"
proof (induction items rule: induct_list012)
  case 1
  then show ?case by simp
next
  case (2 m)
  then show ?case using json_object_text_hd[of m] by simp
next
  case (3 m m' ms)
  then show ?case using json_object_text_hd[of m] by simp
qed

lemma parse_objects_step:
  assumes "\<forall>m \<in> set item. json_ok (snd m)"
  shows "parse_objects (json_object_text item @ tail) =
           (case skip_space tail of
              [] \<Rightarrow> None
            | c # s2 \<Rightarrow>
                if c = CHR '']'' then Some ([item], s2)
                else if c = CHR '','' then
                  map_option (\<lambda>(items, r). (item # items, r)) (parse_objects (skip_space s2))
                else None)"
  by (subst parse_objects.simps) (simp add: parse_object_dump[OF assms])

lemma parse_objects_dump:
  assumes "config_ok (i0 # items)"
  shows "parse_objects (join item_sep (map json_object_text (i0 # items))
                          @ CHR 0x0A # '']'' @ rest) = Some (i0 # items, rest)"
  using assms
proof (induction items arbitrary: i0)
  case Nil
  have ok: "\<forall>m \<in> set i0. json_ok (snd m)"
    using Nil by (simp add: config_ok_def)
  have t: "join item_sep (map json_object_text [i0]) @ CHR 0x0A # '']'' @ rest
             = json_object_text i0 @ (CHR 0x0A # CHR '']'' # rest)"
    by simp
  show ?case
    unfolding t by (simp add: parse_objects_step[OF ok] skip_space_eval)
next
  case (Cons i1 items)
  have ok: "\<forall>m \<in> set i0. json_ok (snd m)" and rest_ok: "config_ok (i1 # items)"
    using Cons.prems by (simp_all add: config_ok_def)
  let ?next = "join item_sep (map json_object_text (i1 # items)) @ CHR 0x0A # '']'' @ rest"
  have ih: "parse_objects ?next = Some (i1 # items, rest)"
    using rest_ok by (rule Cons.IH)
  have "?next \<noteq> [] \<and> hd ?next = CHR ''{''"
    using join_objects_hd[of "i1 # items" item_sep] by simp
  then obtain cs where nx: "?next = CHR ''{'' # cs"
    by (cases ?next) auto
  have "join item_sep (map json_object_text (i0 # i1 # items)) @ CHR 0x0A # '']'' @ rest
          = json_object_text i0 @ item_sep @ ?next"
    by simp
  then have t: "join item_sep (map json_object_text (i0 # i1 # items)) @ CHR 0x0A # '']'' @ rest
                  = json_object_text i0
                      @ (CHR '','' # CHR 0x0A # CHR '' '' # CHR '' '' # CHR ''{'' # cs)"
    unfolding nx by (simp add: item_sep_def)
  show ?case
    unfolding t using ih[unfolded nx]
    by (simp add: parse_objects_step[OF ok] skip_space_eval)
qed

lemma json_load_dump:
  assumes "config_ok items"
  shows "json_load (json_dump items) = Inr items"
proof (cases items)
  case Nil
  then show ?thesis
    by (simp add: json_dump_def json_load_def skip_space_eval skip_space_def)
next
  case (Cons i0 rest)
  let ?body = "join item_sep (map json_object_text (i0 # rest)) @ CHR 0x0A # '']'' @ []"
  have p: "parse_objects ?body = Some (i0 # rest, [])"
    using assms Cons by (intro parse_objects_dump) simp
  have "?body \<noteq> [] \<and> hd ?body = CHR ''{''"
    using join_objects_hd[of "i0 # rest" item_sep] by simp
  then obtain cs where b: "?body = CHR ''{'' # cs"
    by (cases ?body) auto
  have "json_dump items = CHR ''['' # [CHR 0x0A] @ ''  '' @ ?body"
    using Cons by (simp add: json_dump_def item_sep_def)
  then have t: "json_dump items = CHR ''['' # CHR 0x0A # CHR '' '' # CHR '' '' # CHR ''{'' # cs"
    unfolding b by simp
  show ?thesis
    unfolding t json_load_def using p[unfolded b] Cons
    by (simp add: skip_space_eval skip_space_def)
qed

subsection \<open>What was saved is what is loaded\<close>

lemma config_of_rows_ok: "config_of_rows rows = Inr config \<Longrightarrow> config_ok config"
proof (induction rows arbitrary: config)
  case Nil
  then show ?case by (simp add: config_ok_def)
next
  case (Cons r rs)
  from Cons.prems obtain m s items where
    m: "py_int (minutes r) = Inr m" and s: "py_int (seconds r) = Inr s"
    and items: "config_of_rows rs = Inr items"
    and config: "config = [(''name'', JString (name r)), (''minutes'', JInt m),
                          (''seconds'', JInt s), (''last_time'', JString (last_time r)),
                          (''enabled'', JBool (enabled r))] # items"
    by (auto split: sum.splits)
  have "config_ok items"
    using items by (rule Cons.IH)
  then show ?case
    using py_int_magnitude[OF m] py_int_magnitude[OF s] by (simp add: config config_ok_def)
qed

lemma load_item_saved:
  assumes "py_str m = Inr ms" "py_str s = Inr ss"
  shows "load_item clk [(''name'', JString n), (''minutes'', JInt m), (''seconds'', JInt s),
                        (''last_time'', JString t), (''enabled'', JBool e)] st
     = (st\<lparr>reads := Suc (reads st),
           table := table st @
             [\<lparr>name = n, minutes = ms, seconds = ss, last_time = t,
               next_cell = [], remaining_cell = [], enabled = e, progress = None\<rparr>]\<rparr>,
        None)"
  using assms by (simp add: load_item_def add_boss_row_def set_row_def dict_get_def Let_def)

lemma load_items_saved:
  "config_of_rows rows = Inr config \<Longrightarrow>
   map saved_fields (table (load_items clk config st))
     = map saved_fields (table st) @ map saved_fields rows
   \<and> events (load_items clk config st) = events st"
proof (induction rows arbitrary: config st)
  case Nil
  then show ?case by simp
next
  case (Cons r rs)
  from Cons.prems obtain m s items where
    m: "py_int (minutes r) = Inr m" and s: "py_int (seconds r) = Inr s"
    and items: "config_of_rows rs = Inr items"
    and config: "config = [(''name'', JString (name r)), (''minutes'', JInt m),
                          (''seconds'', JInt s), (''last_time'', JString (last_time r)),
                          (''enabled'', JBool (enabled r))] # items"
    by (auto split: sum.splits)
  let ?r = "\<lparr>name = name r, minutes = int_text m, seconds = int_text s,
             last_time = last_time r, next_cell = [], remaining_cell = [],
             enabled = enabled r, progress = None\<rparr>"
  let ?st = "st\<lparr>reads := Suc (reads st), table := table st @ [?r]\<rparr>"
  have step: "load_items clk config st = load_items clk items ?st"
    unfolding config
    by (simp add: load_item_saved[OF py_str_py_int(1)[OF m] py_str_py_int(1)[OF s]])
  have same: "saved_fields ?r = saved_fields r"
    by (simp add: saved_fields_def py_str_py_int(2)[OF m] py_str_py_int(2)[OF s] m s)
  show ?case
    using Cons.IH[OF items, of ?st] step same by simp
qed

text \<open>
  Claim C9.  When \<^verbatim>\<open>save_config\<close> succeeds (the period cells of every row hold
  integers), it writes the JSON text of one dictionary for each row;
  \<^verbatim>\<open>json.load\<close> reads the same dictionaries back from that text; and
  \<^verbatim>\<open>load_config\<close> on that file, starting from an empty table as at start-up,
  rebuilds rows with the same name, minutes, seconds, last trigger and enabled
  flag, in the same order, without an error.
\<close>

theorem save_then_load_config:
  assumes "config_of_rows (table st) = Inr config" "table st0 = []"
  shows "save_config st file = (st, Some (json_dump config))
       \<and> json_load (json_dump config) = Inr config
       \<and> map saved_fields (table (load_config clk (Some (json_dump config)) st0))
           = map saved_fields (table st)
       \<and> events (load_config clk (Some (json_dump config)) st0) = events st0"
proof -
  have l: "json_load (json_dump config) = Inr config"
    using config_of_rows_ok[OF assms(1)] by (rule json_load_dump)
  show ?thesis
    using assms load_items_saved[OF assms(1), of clk st0] l
    by (simp add: save_config_def load_config_def)
qed

text \<open>
  Two rows, the first with a quote, a backslash, a line feed and the control
  character 1 in its name, the second with a space and a sign in its period
  cells: what is loaded from the file that was saved has the same fields.  And
  the file of a table with one plain row, character by character.
\<close>

theorem save_then_load_config_witness:
  "map saved_fields
     (table (load_config (\<lambda>k. 0)
       (snd (save_config
         (initial_state\<lparr>table :=
            [boss_row (''A'' @ [CHR 0x22, CHR 0x5C, CHR 0x0A, CHR 0x01]) ''60'' ''0''
               ''10:00:00'' True,
             boss_row ''B'' '' 7'' ''+5'' ''1:2:3'' False]\<rparr>) None))
       initial_state))
   = [(''A'' @ [CHR 0x22, CHR 0x5C, CHR 0x0A, CHR 0x01], Inr 60, Inr 0, ''10:00:00'', True),
      (''B'', Inr 7, Inr 5, ''1:2:3'', False)]
   \<and> snd (save_config
         (initial_state\<lparr>table := [boss_row ''A'' ''60'' ''0'' ''10:00:00'' True]\<rparr>) None)
     = Some (''['' @ [CHR 0x0A]
             @ ''  {'' @ [CHR 0x0A]
             @ ''    '' @ [CHR 0x22] @ ''name'' @ [CHR 0x22] @ '': ''
                 @ [CHR 0x22] @ ''A'' @ [CHR 0x22] @ '','' @ [CHR 0x0A]
             @ ''    '' @ [CHR 0x22] @ ''minutes'' @ [CHR 0x22] @ '': 60,'' @ [CHR 0x0A]
             @ ''    '' @ [CHR 0x22] @ ''seconds'' @ [CHR 0x22] @ '': 0,'' @ [CHR 0x0A]
             @ ''    '' @ [CHR 0x22] @ ''last_time'' @ [CHR 0x22] @ '': ''
                 @ [CHR 0x22] @ ''10:00:00'' @ [CHR 0x22] @ '','' @ [CHR 0x0A]
             @ ''    '' @ [CHR 0x22] @ ''enabled'' @ [CHR 0x22] @ '': true'' @ [CHR 0x0A]
             @ ''  }'' @ [CHR 0x0A]
             @ '']'')"
proof -
  let ?name = "''A'' @ [CHR 0x22, CHR 0x5C, CHR 0x0A, CHR 0x01]"
  let ?st = "initial_state\<lparr>table := [boss_row ?name ''60'' ''0'' ''10:00:00'' True,
                                       boss_row ''B'' '' 7'' ''+5'' ''1:2:3'' False]\<rparr>"
  let ?config = "[[(''name'', JString ?name), (''minutes'', JInt 60),
                   (''seconds'', JInt 0), (''last_time'', JString ''10:00:00''),
                   (''enabled'', JBool True)],
                  [(''name'', JString ''B''), (''minutes'', JInt 7),
                   (''seconds'', JInt 5), (''last_time'', JString ''1:2:3''),
                   (''enabled'', JBool False)]]"
  have i: "py_int '' 7'' = Inr 7" "py_int ''+5'' = Inr 5"
    by code_simp+
  have c: "config_of_rows (table ?st) = Inr ?config"
    by (simp add: initial_state_def boss_row_def py_int_60 py_int_0 i)
  have e: "table initial_state = []"
    by (simp add: initial_state_def)
  have f: "map saved_fields (table ?st)
             = [(?name, Inr 60, Inr 0, ''10:00:00'', True),
                (''B'', Inr 7, Inr 5, ''1:2:3'', False)]"
    by (simp add: initial_state_def boss_row_def saved_fields_def py_int_60 py_int_0 i)
  have t60: "int_text 60 = ''60''" and t0: "int_text 0 = ''0''"
    by (simp_all add: int_text_def digits_of.simps digit_char_values)
  have g: "snd (save_config
             (initial_state\<lparr>table := [boss_row ''A'' ''60'' ''0'' ''10:00:00'' True]\<rparr>) None)
           = Some (''['' @ [CHR 0x0A]
             @ ''  {'' @ [CHR 0x0A]
             @ ''    '' @ [CHR 0x22] @ ''name'' @ [CHR 0x22] @ '': ''
                 @ [CHR 0x22] @ ''A'' @ [CHR 0x22] @ '','' @ [CHR 0x0A]
             @ ''    '' @ [CHR 0x22] @ ''minutes'' @ [CHR 0x22] @ '': 60,'' @ [CHR 0x0A]
             @ ''    '' @ [CHR 0x22] @ ''seconds'' @ [CHR 0x22] @ '': 0,'' @ [CHR 0x0A]
             @ ''    '' @ [CHR 0x22] @ ''last_time'' @ [CHR 0x22] @ '': ''
                 @ [CHR 0x22] @ ''10:00:00'' @ [CHR 0x22] @ '','' @ [CHR 0x0A]
             @ ''    '' @ [CHR 0x22] @ ''enabled'' @ [CHR 0x22] @ '': true'' @ [CHR 0x0A]
             @ ''  }'' @ [CHR 0x0A]
             @ '']'')"
    by (simp add: save_config_def initial_state_def boss_row_def py_int_60 py_int_0
        json_dump_def json_object_text_def json_member_def json_string_def escape_char_def
        member_sep_def item_sep_def t60 t0)
  show ?thesis
    using save_then_load_config[OF c e, of None "\<lambda>k. 0"] f g by simp
qed

section \<open>Facts about the alarm flag\<close>

lemma follows_refl: "follows s s"
  by (simp add: follows_def)

lemma follows_trans:
  assumes "follows a b" "follows b c"
  shows "follows a c"
proof -
  obtain n1 where 1: "events b = events a @ n1"
    "length (filter is_due n1) + (if ringing b then 0 else 1) \<le> (if ringing a then 0 else 1)"
    using assms(1) by (auto simp: follows_def)
  obtain n2 where 2: "events c = events b @ n2"
    "length (filter is_due n2) + (if ringing c then 0 else 1) \<le> (if ringing b then 0 else 1)"
    using assms(2) by (auto simp: follows_def)
  have "events c = events a @ (n1 @ n2)"
    using 1(1) 2(1) by simp
  moreover have "length (filter is_due (n1 @ n2)) + (if ringing c then 0 else 1)
                   \<le> (if ringing a then 0 else 1)"
    using 1(2) 2(2) by simp
  ultimately show ?thesis
    unfolding follows_def by blast
qed

lemma follows_same:
  "events s' = events s \<Longrightarrow> ringing s' = ringing s \<Longrightarrow> follows s s'"
  by (simp add: follows_def)

lemma follows_ringing:
  assumes "follows s s'" "ringing s"
  shows "ringing s'" and "\<exists>new. events s' = events s @ new \<and> filter is_due new = []"
  using assms by (auto simp: follows_def split: if_splits)

text \<open>
  The lemmas below hold whether the method returns or hangs: they speak of the
  state it leaves in either case.
\<close>

lemma trigger_alarm_follows:
  assumes "\<And>s. ringing s \<Longrightarrow> follows s (state_of (R s))"
    and "\<not> ringing st"
  shows "follows st (state_of (trigger_alarm R clk i nt st))"
proof -
  let ?st1 = "st\<lparr>ringing := True, events := events st @ [Due i nt]\<rparr>"
  have a: "follows st ?st1"
    using assms(2) by (simp add: follows_def)
  show ?thesis
  proof (cases "auto_time st")
    case False
    then show ?thesis
      using a by (simp add: trigger_alarm_def)
  next
    case True
    let ?st2 = "?st1\<lparr>reads := Suc (reads ?st1),
                      table := (table ?st1)[i := (table ?st1 ! i)
                        \<lparr>last_time := strftime_hms (clk (reads ?st1))\<rparr>]\<rparr>"
    have r: "trigger_alarm R clk i nt st = R ?st2"
      using True by (simp add: trigger_alarm_def update_boss_time_def)
    have b: "follows ?st1 ?st2"
      by (rule follows_same) simp_all
    have "follows ?st2 (state_of (R ?st2))"
      by (rule assms(1)) simp
    then show ?thesis
      unfolding r using a b follows_trans by blast
  qed
qed

lemma check_alert_conditions_follows:
  assumes "\<And>s. ringing s \<Longrightarrow> follows s (state_of (R s))"
  shows "follows st (state_of (check_alert_conditions R clk i nt now st))"
proof (cases "enabled (table st ! i)")
  case False
  then show ?thesis
    by (simp add: check_alert_conditions_def follows_refl)
next
  case True
  let ?st1 = "if 178 \<le> total_seconds (nt - now) \<and> total_seconds (nt - now) \<le> 180
              then st\<lparr>events := events st @ [PreWarning i]\<rparr> else st"
  have a: "follows st ?st1"
    by (simp add: follows_def)
  have r: "ringing ?st1 = ringing st"
    by simp
  show ?thesis
  proof (cases "total_seconds (nt - now) \<le> 0 \<and> \<not> ringing st")
    case False
    then have "check_alert_conditions R clk i nt now st = Returned ?st1"
      using True r by (auto simp: check_alert_conditions_def Let_def)
    then show ?thesis
      using a by simp
  next
    case fire: True
    then have c: "check_alert_conditions R clk i nt now st = trigger_alarm R clk i nt ?st1"
      using True by (auto simp: check_alert_conditions_def Let_def)
    have "follows ?st1 (state_of (trigger_alarm R clk i nt ?st1))"
      using fire r by (intro trigger_alarm_follows[OF assms]) auto
    then show ?thesis
      unfolding c using a follows_trans by blast
  qed
qed

lemma refresh_row_follows:
  assumes "\<And>s. ringing s \<Longrightarrow> follows s (state_of (R s))"
  shows "follows st (state_of (refresh_row R clk now i st))"
proof -
  have f: "follows st (row_failed i e st)" for e
    by (simp add: follows_def row_failed_def)
  have u: "follows st (update_row_display i nt p now st)" for nt p
    by (rule follows_same) (simp_all add: update_row_display_def Let_def)
  have c: "follows st (state_of (check_alert_conditions R clk i nt now
             (update_row_display i nt p now st)))" for nt p
    using check_alert_conditions_follows[OF assms] u follows_trans by blast
  show ?thesis
    using f c follows_refl
    by (auto simp: refresh_row_def split: sum.splits option.splits prod.splits)
qed

lemma refresh_rows_follows:
  assumes "\<And>s. ringing s \<Longrightarrow> follows s (state_of (R s))"
  shows "follows st (state_of (refresh_rows R clk now is st))"
proof (induction "is" arbitrary: st)
  case Nil
  then show ?case by (simp add: follows_refl)
next
  case (Cons i rest)
  have 1: "follows st (state_of (refresh_row R clk now i st))"
    by (rule refresh_row_follows[OF assms])
  show ?case
  proof (cases "refresh_row R clk now i st")
    case (Returned s1)
    then have "follows st s1"
      using 1 by simp
    then show ?thesis
      using Returned Cons.IH[of s1] follows_trans by auto
  next
    case (Hung s1)
    then show ?thesis
      using 1 by simp
  qed
qed

lemma refresh_body_follows:
  assumes "\<And>s. ringing s \<Longrightarrow> follows s (state_of (R s))"
  shows "follows st (state_of (refresh_body R clk st))"
proof -
  have "follows st (st\<lparr>reads := Suc (reads st)\<rparr>)"
    by (rule follows_same) simp_all
  moreover have "follows (st\<lparr>reads := Suc (reads st)\<rparr>) (state_of (refresh_body R clk st))"
    using refresh_rows_follows[OF assms] by (simp add: refresh_body_def)
  ultimately show ?thesis
    using follows_trans by blast
qed

text \<open>
  A refresh raises the alarm at most once, and not at all while it rings,
  whether it returns or hangs.
\<close>

lemma refresh_all_timers_follows:
  "follows st (state_of (refresh_all_timers clk st))"
proof (induction clk st rule: refresh_all_timers.induct)
  case (1 clk st)
  show ?case
  proof (cases "ringing st")
    case False
    have "follows s (state_of (refresh_all_timers clk s))" if "ringing s" for s
      using "1.IH"[OF False that] .
    then show ?thesis
      using refresh_body_follows[of "refresh_all_timers clk" st clk]
      by (simp add: refresh_all_timers.simps)
  next
    case True
    have "refresh_body (refresh_all_timers clk) clk st = refresh_body Returned clk st"
      using True by (intro refresh_body_cong) simp_all
    moreover have "follows st (state_of (refresh_body Returned clk st))"
      by (rule refresh_body_follows) (simp add: follows_refl)
    ultimately show ?thesis
      by (simp add: refresh_all_timers.simps)
  qed
qed

lemma run_follows:
  "StopAlarm \<notin> set acts \<Longrightarrow> follows st (state_of (run clk acts st))"
proof (induction clk acts st rule: run.induct)
  case (1 clk st)
  then show ?case by (simp add: follows_refl)
next
  case (2 clk rest st)
  have a: "follows st (state_of (refresh_all_timers clk st))"
    by (rule refresh_all_timers_follows)
  show ?case
  proof (cases "refresh_all_timers clk st")
    case (Returned s1)
    then have "follows s1 (state_of (run clk rest s1))"
      using "2.IH" "2.prems" by simp
    then show ?thesis
      using a Returned follows_trans by auto
  next
    case (Hung s1)
    then show ?thesis
      using a by simp
  qed
next
  case (3 clk rest st)
  then show ?case by simp
next
  case (4 clk f rest st)
  have "follows st (st\<lparr>table := f (table st)\<rparr>)"
    by (rule follows_same) simp_all
  then show ?case
    using "4.IH" "4.prems" follows_trans by auto
next
  case (5 clk b rest st)
  have "follows st (st\<lparr>auto_time := b\<rparr>)"
    by (rule follows_same) simp_all
  then show ?case
    using "5.IH" "5.prems" follows_trans by auto
qed

section \<open>The claim about the alarm\<close>

text \<open>
  The loop of the recurrence computation, unfolded for a positive period only
  (for a period of zero it would be unfolded for ever).
\<close>

lemma advance_unfold:
  "0 < period \<Longrightarrow>
   advance period now next_time =
     (if next_time < now then
        (case datetime_add next_time period of
           Inl e \<Rightarrow> Some (Inl e)
         | Inr t \<Rightarrow> advance period now t)
      else Some (Inr next_time))"
  by (subst advance.simps) simp

text \<open>
  A table in automatic mode with a row that is due at 11:00:00 sharp and, after
  it, a row with a period of zero.  The check of the first row raises the alarm
  and sets the flag; the refresh nested in the alarm then hangs in the second
  row.
\<close>

lemma alarm_then_hang:
  "check_alert_conditions (refresh_all_timers (\<lambda>k. clock_time 738885 11 0 0))
     (\<lambda>k. clock_time 738885 11 0 0) 0 (clock_time 738885 11 0 0) (clock_time 738885 11 0 0)
     (initial_state\<lparr>table := [boss_row ''A'' ''60'' ''0'' ''10:00:00'' True,
                                boss_row ''Z'' ''0'' ''0'' ''10:00:00'' True]\<rparr>)
   = Hung (initial_state\<lparr>table := [\<lparr>name = ''A'', minutes = ''60'', seconds = ''0'',
                                      last_time = ''11:00:00'', next_cell = ''12:00:00'',
                                      remaining_cell = ''1:00:00'', enabled = True,
                                      progress = Some 0\<rparr>,
                                     boss_row ''Z'' ''0'' ''0'' ''10:00:00'' True],
                          ringing := True, reads := 2,
                          events := [Due 0 (clock_time 738885 11 0 0)]\<rparr>)"
proof -
  have tp: "total_seconds 3600000000 = 3600"
    using total_seconds_whole[of 3600] by (simp add: us_per_second_def)
  show ?thesis
    by (simp add: refresh_all_timers.simps refresh_body_def refresh_row_def initial_state_def
        boss_row_def update_row_display_def check_alert_conditions_def trigger_alarm_def
        update_boss_time_def Let_def total_seconds_le_0 total_seconds_ge_178
        total_seconds_le_180 total_seconds_pos next_occurrence_def anchor_def combine_date_def
        datetime_add_def advance_unfold advance_zero_diverges advance_done timedelta_of_def
        clock_time_def us_per_second_def us_per_day_def datetime_limit_def
        strftime_hms_def two_digits_def digit_char_values strptime_hms_def is_digit_def
        digit_val_def parse_row_def py_int_60 py_int_0 tp str_timedelta_def digits_of.simps
        trunc_def float_progress_start)
qed

text \<open>The same table, ticked: the first refresh hangs after the alarm of the first row.\<close>

lemma tick_alarm_then_hang:
  "run (\<lambda>k. clock_time 738885 11 0 0) [Tick, Tick]
     (initial_state\<lparr>table := [boss_row ''A'' ''60'' ''0'' ''10:00:00'' True,
                                boss_row ''Z'' ''0'' ''0'' ''10:00:00'' True]\<rparr>)
   = Hung (initial_state\<lparr>table := [\<lparr>name = ''A'', minutes = ''60'', seconds = ''0'',
                                      last_time = ''11:00:00'', next_cell = ''12:00:00'',
                                      remaining_cell = ''1:00:00'', enabled = True,
                                      progress = Some 0\<rparr>,
                                     boss_row ''Z'' ''0'' ''0'' ''10:00:00'' True],
                          ringing := True, reads := 3,
                          events := [Due 0 (clock_time 738885 11 0 0)]\<rparr>)"
proof -
  have tp: "total_seconds 3600000000 = 3600"
    using total_seconds_whole[of 3600] by (simp add: us_per_second_def)
  have t0: "total_seconds 0 = 0"
    using total_seconds_whole[of 0] by simp
  show ?thesis
    by (simp add: refresh_all_timers.simps refresh_body_def refresh_row_def initial_state_def
        boss_row_def update_row_display_def check_alert_conditions_def trigger_alarm_def
        update_boss_time_def Let_def total_seconds_le_0 total_seconds_ge_178
        total_seconds_le_180 total_seconds_pos next_occurrence_def anchor_def combine_date_def
        datetime_add_def advance_unfold advance_zero_diverges advance_done timedelta_of_def
        clock_time_def us_per_second_def us_per_day_def datetime_limit_def
        strftime_hms_def two_digits_def digit_char_values strptime_hms_def is_digit_def
        digit_val_def parse_row_def py_int_60 py_int_0 tp t0 str_timedelta_def digits_of.simps
        trunc_def float_progress_start float_progress_end)
qed

text \<open>
  Claim C1, as amended.  \<^verbatim>\<open>self.ringing\<close> is one flag for the whole table.  In
  every session of ticks and edits in which the alarm is not stopped, the alarm
  is raised at most once, for all rows together, and not at all if it was
  ringing at the start; when it is raised the flag is set.  And a check that
  finds an enabled row with \<open>remaining \<le> 0\<close> while the flag is clear raises the
  alarm for that row, once, and sets the flag.  Both hold of the state the
  session or the check leaves, whether it returns or hangs in a later row.
\<close>

theorem one_alarm_until_stopped:
  "(StopAlarm \<notin> set acts \<longrightarrow>
      (\<exists>new. events (state_of (run clk acts st)) = events st @ new
         \<and> length (filter is_due new) \<le> 1
         \<and> (ringing st \<longrightarrow> filter is_due new = [])
         \<and> (filter is_due new \<noteq> [] \<longrightarrow> ringing (state_of (run clk acts st)))))
   \<and> (enabled (table s ! i) \<and> total_seconds (next_time - now) \<le> 0 \<and> \<not> ringing s \<longrightarrow>
      (\<exists>new. events (state_of (check_alert_conditions (refresh_all_timers clk) clk i
                                  next_time now s))
                = events s @ Due i next_time # new
         \<and> filter is_due new = []
         \<and> ringing (state_of (check_alert_conditions (refresh_all_timers clk) clk i
                                 next_time now s))))"
proof (intro conjI impI)
  let ?st' = "state_of (run clk acts st)"
  assume "StopAlarm \<notin> set acts"
  then have "follows st ?st'"
    by (rule run_follows)
  then obtain new where new: "events ?st' = events st @ new"
    and le: "length (filter is_due new) + (if ringing ?st' then 0 else 1)
               \<le> (if ringing st then 0 else 1)"
    by (auto simp: follows_def)
  have "length (filter is_due new) \<le> 1"
    using le by (simp split: if_splits)
  moreover have "ringing st \<longrightarrow> filter is_due new = []"
    using le by (simp split: if_splits)
  moreover have "filter is_due new \<noteq> [] \<longrightarrow> ringing ?st'"
    using le by (auto split: if_splits)
  ultimately show "\<exists>new. events ?st' = events st @ new \<and> length (filter is_due new) \<le> 1
         \<and> (ringing st \<longrightarrow> filter is_due new = [])
         \<and> (filter is_due new \<noteq> [] \<longrightarrow> ringing ?st')"
    using new by blast
next
  let ?R = "refresh_all_timers clk"
  let ?c = "check_alert_conditions ?R clk i next_time now s"
  assume h: "enabled (table s ! i) \<and> total_seconds (next_time - now) \<le> 0 \<and> \<not> ringing s"
  let ?s1 = "s\<lparr>ringing := True, events := events s @ [Due i next_time]\<rparr>"
  have en: "enabled (table s ! i)" and le: "total_seconds (next_time - now) \<le> 0"
    and nr: "\<not> ringing s"
    using h by simp_all
  have out: "\<not> (178 \<le> total_seconds (next_time - now) \<and> total_seconds (next_time - now) \<le> 180)"
    using le by simp
  have c: "?c = trigger_alarm ?R clk i next_time s"
    using en le nr out by (simp add: check_alert_conditions_def Let_def)
  show "\<exists>new. events (state_of ?c) = events s @ Due i next_time # new
         \<and> filter is_due new = [] \<and> ringing (state_of ?c)"
  proof (cases "auto_time s")
    case False
    then have "?c = Returned ?s1"
      unfolding c by (simp add: trigger_alarm_def)
    then show ?thesis by simp
  next
    case True
    let ?s2 = "?s1\<lparr>reads := Suc (reads ?s1),
                     table := (table ?s1)[i := (table ?s1 ! i)
                       \<lparr>last_time := strftime_hms (clk (reads ?s1))\<rparr>]\<rparr>"
    have e: "?c = ?R ?s2"
      unfolding c using True by (simp add: trigger_alarm_def update_boss_time_def)
    have f: "follows ?s2 (state_of (?R ?s2))"
      by (rule refresh_all_timers_follows)
    have r: "ringing ?s2"
      by simp
    obtain new where "events (state_of (?R ?s2)) = events ?s2 @ new" "filter is_due new = []"
      using follows_ringing(2)[OF f r] by blast
    moreover have "ringing (state_of (?R ?s2))"
      using follows_ringing(1)[OF f r] .
    ultimately show ?thesis
      unfolding e by simp
  qed
qed

text \<open>
  The table with the row of period zero after the row that is due: the session
  and the check both hang, and the alarm of the first row has been raised, once,
  and the flag set.
\<close>

theorem one_alarm_until_stopped_witness:
  "returned (run (\<lambda>k. clock_time 738885 11 0 0) [Tick, Tick]
     (initial_state\<lparr>table := [boss_row ''A'' ''60'' ''0'' ''10:00:00'' True,
                                boss_row ''Z'' ''0'' ''0'' ''10:00:00'' True]\<rparr>)) = None
   \<and> events (state_of (run (\<lambda>k. clock_time 738885 11 0 0) [Tick, Tick]
     (initial_state\<lparr>table := [boss_row ''A'' ''60'' ''0'' ''10:00:00'' True,
                                boss_row ''Z'' ''0'' ''0'' ''10:00:00'' True]\<rparr>)))
       = [Due 0 (clock_time 738885 11 0 0)]
   \<and> ringing (state_of (run (\<lambda>k. clock_time 738885 11 0 0) [Tick, Tick]
     (initial_state\<lparr>table := [boss_row ''A'' ''60'' ''0'' ''10:00:00'' True,
                                boss_row ''Z'' ''0'' ''0'' ''10:00:00'' True]\<rparr>)))
   \<and> returned (check_alert_conditions (refresh_all_timers (\<lambda>k. clock_time 738885 11 0 0))
       (\<lambda>k. clock_time 738885 11 0 0) 0 (clock_time 738885 11 0 0) (clock_time 738885 11 0 0)
       (initial_state\<lparr>table := [boss_row ''A'' ''60'' ''0'' ''10:00:00'' True,
                                  boss_row ''Z'' ''0'' ''0'' ''10:00:00'' True]\<rparr>)) = None
   \<and> events (state_of (check_alert_conditions
       (refresh_all_timers (\<lambda>k. clock_time 738885 11 0 0))
       (\<lambda>k. clock_time 738885 11 0 0) 0 (clock_time 738885 11 0 0) (clock_time 738885 11 0 0)
       (initial_state\<lparr>table := [boss_row ''A'' ''60'' ''0'' ''10:00:00'' True,
                                  boss_row ''Z'' ''0'' ''0'' ''10:00:00'' True]\<rparr>)))
       = [Due 0 (clock_time 738885 11 0 0)]
   \<and> ringing (state_of (check_alert_conditions
       (refresh_all_timers (\<lambda>k. clock_time 738885 11 0 0))
       (\<lambda>k. clock_time 738885 11 0 0) 0 (clock_time 738885 11 0 0) (clock_time 738885 11 0 0)
       (initial_state\<lparr>table := [boss_row ''A'' ''60'' ''0'' ''10:00:00'' True,
                                  boss_row ''Z'' ''0'' ''0'' ''10:00:00'' True]\<rparr>)))"
proof -
  let ?clk = "\<lambda>k :: nat. clock_time 738885 11 0 0"
  let ?s = "initial_state\<lparr>table := [boss_row ''A'' ''60'' ''0'' ''10:00:00'' True,
                                      boss_row ''Z'' ''0'' ''0'' ''10:00:00'' True]\<rparr>"
  have h: "enabled (table ?s ! 0)"
    "total_seconds (clock_time 738885 11 0 0 - clock_time 738885 11 0 0) \<le> 0"
    "\<not> ringing ?s" "StopAlarm \<notin> set [Tick, Tick]"
    by (simp_all add: initial_state_def boss_row_def total_seconds_le_0)
  show ?thesis
    using one_alarm_until_stopped
      [of "[Tick, Tick]" ?clk ?s ?s 0 "clock_time 738885 11 0 0" "clock_time 738885 11 0 0"]
      h
    unfolding tick_alarm_then_hang alarm_then_hang
    by simp
qed

text \<open>
  The suppression is not per row.  Two enabled rows with a period of one hour
  and a last trigger of 10:00:00, refreshed at 11:00:00 sharp, when both have
  nothing remaining: the alarm is raised for the first row only, and the second
  row gets none, not in this refresh and not in the next one after the alarm was
  stopped.  (The clock advances one second with each reading.)
\<close>

theorem alarm_flag_per_row_counterexample:
  "next_occurrence (clock_time 0 10 0 0) (3600 * us_per_second) (clock_time 738885 11 0 0)
     = Some (Inr (clock_time 738885 11 0 0))
   \<and> map_option events
       (returned (run (\<lambda>k. clock_time 738885 11 0 (int k)) [Tick, StopAlarm, Tick]
         (initial_state\<lparr>table := [boss_row ''A'' ''60'' ''0'' ''10:00:00'' True,
                                    boss_row ''B'' ''60'' ''0'' ''10:00:00'' True]\<rparr>)))
      = Some [Due 0 (clock_time 738885 11 0 0)]"
proof -
  have a: "next_occurrence (clock_time 0 10 0 0) (3600 * us_per_second)
             (clock_time 738885 11 0 0) = Some (Inr (clock_time 738885 11 0 0))"
    by (simp add: clock_time_def us_per_second_def us_per_day_def datetime_limit_def
        next_occurrence_def anchor_def combine_date_def datetime_add_def advance.simps)
  have b: "map_option events
       (returned (run (\<lambda>k. clock_time 738885 11 0 (int k)) [Tick, StopAlarm, Tick]
         (initial_state\<lparr>table := [boss_row ''A'' ''60'' ''0'' ''10:00:00'' True,
                                    boss_row ''B'' ''60'' ''0'' ''10:00:00'' True]\<rparr>)))
      = Some [Due 0 (clock_time 738885 11 0 0)]"
    by (simp add: scenario_simps stop_alarm_sound_def strftime_hms_def two_digits_def
        digit_char_values strptime_hms_def is_digit_def digit_val_def parse_row_def
        py_int_60 py_int_0)
  show ?thesis
    using a b by (intro conjI)
qed

end
